theory Spec2Isabelle
  imports Complex_Main
begin

section \<open>Worley noise in three dimensions: the model of \<open>worley_noise.h\<close>\<close>

text \<open>
  The header \<open>worley_noise.h\<close> has two functions. \<open>generateFeaturePoints\<close> places one
  random point with integer coordinates in each cell of a \<open>gridSize\<close> cubed grid, and
  \<open>worleyNoise3D\<close> stores, for each voxel of a \<open>size\<close> cubed volume, one minus the
  distance to the nearest of these points, divided by the diagonal of a cell.

  The model follows the code line by line, with the numbers of the machine:

  \<^item> \<open>std::size_t\<close> has 64 bits: sums and products are taken modulo \<open>2 ^ 64\<close>
    (\<open>size_t\<close>).
  \<^item> \<open>int\<close> has 32 bits: \<open>static_cast<int>\<close> of a \<open>std::size_t\<close> keeps the low 32
    bits, read in two's complement (\<open>static_cast_int\<close>), and an \<open>int\<close> that meets a
    \<open>std::size_t\<close> in an expression is converted modulo \<open>2 ^ 64\<close> (\<open>int_to_size_t\<close>).
  \<^item> \<open>float\<close> is a subset of the reals, and each operation (\<open>+\<close>, \<open>-\<close>, \<open>*\<close>,
    \<open>/\<close>, \<open>sqrtf\<close>, and the conversions from integers) is the exact operation followed
    by a rounding \<open>rd\<close>, a parameter of the model. Each operation is rounded on its own
    (no fused multiply-add, no wider intermediate format). The rounding of the code is
    \<open>float32\<close>, IEEE 754 binary32 with rounding to nearest, ties to even; its exponent is
    not bounded here, which makes no difference for this program: apart from \<open>FLT_MAX\<close>
    its numbers are \<open>0\<close> or of a magnitude between \<open>2 ^ (- 25)\<close> and \<open>2 ^ 66\<close>, inside
    the range of the normal numbers of binary32. Where \<open>worleyNoise3D\<close> returns, the
    divisor \<open>maxCellDistance\<close> of \<open>mapValue\<close> is at least \<open>1\<close>, so that no division is
    by zero. The theorems that do
    not depend on the particular rounding are stated for every \<open>rd\<close> with the properties
    collected in \<open>rounding\<close>, which \<open>float32\<close> has (lemma \<open>rounding_float32\<close>) and which
    the identity has too (lemma \<open>rounding_exact\<close>): with the identity the model computes
    in exact real arithmetic.
  \<^item> Loops are folds over \<open>[0..<n]\<close>.
  \<^item> The two functions return \<open>error + result\<close>. The errors \<open>DivisionByZero\<close>,
    \<open>EmptyDistribution\<close> and \<open>IndexOutOfRange\<close> stand for the undefined behaviour of the
    C++ code (an integer division by zero, a \<open>std::uniform_int_distribution\<close> whose upper
    bound is below its lower bound, a write through \<open>operator[]\<close> outside the vector).
    \<open>AllocationFailure\<close> stands for the exception (\<open>std::length_error\<close> or
    \<open>std::bad_alloc\<close>) of a vector that cannot get its memory.
  \<^item> The allocator is a parameter \<open>alloc\<close>: \<open>alloc n b\<close> tells whether memory for \<open>n\<close>
    objects of \<open>b\<close> bytes is granted (4 bytes for a \<open>float\<close>, 12 for a \<open>Vector3i\<close>).
  \<^item> The random engine is a parameter \<open>rnd\<close>: \<open>rnd n\<close> is the value of the \<open>n\<close>-th
    call \<open>dist(engine)\<close>.

  \<open>size\<close> and \<open>min\<close> are constants of HOL: the parameter \<open>size\<close> is written \<open>size'\<close>
  and the local \<open>min\<close> is written \<open>m\<close>. The two locals named \<open>sizeOfEachCell\<close> are
  \<open>gen_sizeOfEachCell\<close> (line 41) and \<open>worley_sizeOfEachCell\<close> (line 83).
\<close>

subsection \<open>Machine integers\<close>

text \<open>
  Arithmetic of \<open>std::size_t\<close>, the conversion of an \<open>int\<close> to \<open>std::size_t\<close>, and
  \<open>static_cast<int>\<close> of a \<open>std::size_t\<close>.
\<close>

definition size_t :: "nat \<Rightarrow> nat" where
  "size_t n = n mod 2 ^ 64"

definition int_to_size_t :: "int \<Rightarrow> nat" where
  "int_to_size_t n = nat (n mod 2 ^ 64)"

definition static_cast_int :: "int \<Rightarrow> int" where
  "static_cast_int n = (n + 2 ^ 31) mod 2 ^ 32 - 2 ^ 31"

subsection \<open>Single precision\<close>

text \<open>
  \<open>rne y\<close> is the integer nearest to \<open>y\<close>, the even one of the two at a tie.
  \<open>float32 x\<close> rounds \<open>x\<close> to 24 significant bits: with \<open>e\<close> the binary exponent of
  \<open>x\<close>, the unit in the last place is \<open>2 ^ (e - 23)\<close>.
\<close>

definition rne :: "real \<Rightarrow> int" where
  "rne y =
     (let n = \<lfloor>y\<rfloor>; r = y - of_int n
      in if r < 1 / 2 then n
         else if 1 / 2 < r then n + 1
         else if even n then n else n + 1)"

definition float32 :: "real \<Rightarrow> real" where
  "float32 x =
     (if x = 0 then 0
      else
        let ulp = 2 powi (\<lfloor>log 2 \<bar>x\<bar>\<rfloor> - 23)
        in sgn x * (of_int (rne (\<bar>x\<bar> / ulp)) * ulp))"

text \<open>
  What the proofs use of a rounding: it is monotone, odd and idempotent, it keeps the
  integers up to \<open>2 ^ 24\<close>, and its relative error is at most \<open>2 ^ (- 24)\<close>.
\<close>

definition rounding :: "(real \<Rightarrow> real) \<Rightarrow> bool" where
  "rounding rd =
     ((\<forall>x y. x \<le> y \<longrightarrow> rd x \<le> rd y) \<and>
      (\<forall>x. rd (- x) = - rd x) \<and>
      (\<forall>x. rd (rd x) = rd x) \<and>
      (\<forall>n :: int. \<bar>n\<bar> \<le> 2 ^ 24 \<longrightarrow> rd (of_int n) = of_int n) \<and>
      (\<forall>x. \<bar>rd x - x\<bar> \<le> \<bar>x\<bar> / 2 ^ 24))"

subsection \<open>Vectors\<close>

record 'a Vector3 =
  vx :: 'a
  vy :: 'a
  vz :: 'a

type_synonym Vector3f = "real Vector3"
type_synonym Vector3i = "int Vector3"

text \<open>\<open>distance\<close> (lines 23 to 29), \<open>toVector3f\<close> (lines 31 to 34) and \<open>mapValue\<close>
  (lines 63 to 66). In \<open>mapValue\<close> the product is divided, then added to \<open>newMin\<close>.\<close>

definition distance :: "(real \<Rightarrow> real) \<Rightarrow> Vector3f \<Rightarrow> Vector3f \<Rightarrow> real" where
  "distance rd v1 v2 =
     (let dx = rd (vx v2 - vx v1);
          dy = rd (vy v2 - vy v1);
          dz = rd (vz v2 - vz v1)
      in rd (sqrt (rd (rd (rd (dx * dx) + rd (dy * dy)) + rd (dz * dz)))))"

definition toVector3f :: "(real \<Rightarrow> real) \<Rightarrow> Vector3i \<Rightarrow> Vector3f" where
  "toVector3f rd v =
     \<lparr>vx = rd (real_of_int (vx v)), vy = rd (real_of_int (vy v)), vz = rd (real_of_int (vz v))\<rparr>"

definition mapValue :: "(real \<Rightarrow> real) \<Rightarrow> real \<Rightarrow> real \<Rightarrow> real \<Rightarrow> real \<Rightarrow> real \<Rightarrow> real" where
  "mapValue rd v oldMin oldMax newMin newMax =
     rd (newMin + rd (rd (rd (v - oldMin) * rd (newMax - newMin)) / rd (oldMax - oldMin)))"

subsection \<open>Errors, the random source and the allocator\<close>

datatype error = DivisionByZero | EmptyDistribution | IndexOutOfRange | AllocationFailure

text \<open>
  \<open>uniform_int_distribution a b rnd\<close> is the postcondition of the library for a
  distribution built as \<open>std::uniform_int_distribution dist(a, b)\<close>: every draw lies in
  \<open>[a, b]\<close>.
\<close>

type_synonym rng = "nat \<Rightarrow> int"

definition uniform_int_distribution :: "int \<Rightarrow> int \<Rightarrow> rng \<Rightarrow> bool" where
  "uniform_int_distribution a b rnd = (\<forall>n. a \<le> rnd n \<and> rnd n \<le> b)"

type_synonym allocator = "nat \<Rightarrow> nat \<Rightarrow> bool"

subsection \<open>The feature point generator\<close>

text \<open>The local \<open>sizeOfEachCell\<close> of \<open>generateFeaturePoints\<close> (line 41).\<close>

definition gen_sizeOfEachCell :: "nat \<Rightarrow> nat \<Rightarrow> int" where
  "gen_sizeOfEachCell size' gridSize = static_cast_int (int (size' div gridSize))"

text \<open>
  One argument of \<open>emplace_back\<close> (lines 53 to 55),
  \<open>static_cast<int>(i * sizeOfEachCell + dist(engine))\<close> with the draw \<open>r\<close>: the sum is
  one of \<open>std::size_t\<close>.
\<close>

definition cell_coordinate :: "int \<Rightarrow> nat \<Rightarrow> int \<Rightarrow> int" where
  "cell_coordinate sizeOfEachCell i r =
     static_cast_int (int (size_t (i * int_to_size_t sizeOfEachCell + int_to_size_t r)))"

text \<open>
  The body of the innermost loop. The state is the number of draws made so far and the
  vector. The three draws are numbered in the order of the arguments. A vector that has
  reached its capacity asks the allocator for more.
\<close>

definition emplace_back :: "allocator \<Rightarrow> rng \<Rightarrow> int \<Rightarrow> nat \<Rightarrow> nat \<Rightarrow> nat \<Rightarrow> nat \<Rightarrow>
    error + nat \<times> Vector3i list \<Rightarrow> error + nat \<times> Vector3i list" where
  "emplace_back alloc rnd sizeOfEachCell capacity i j k state =
     (case state of
        Inl e \<Rightarrow> Inl e
      | Inr (calls, featurePoints) \<Rightarrow>
          if length featurePoints < capacity \<or> alloc (length featurePoints + 1) 12
          then Inr (calls + 3,
                 featurePoints @
                   [\<lparr>vx = cell_coordinate sizeOfEachCell i (rnd calls),
                     vy = cell_coordinate sizeOfEachCell j (rnd (calls + 1)),
                     vz = cell_coordinate sizeOfEachCell k (rnd (calls + 2))\<rparr>])
          else Inl AllocationFailure)"

text \<open>
  \<open>generateFeaturePoints\<close> (lines 36 to 61): the division of line 41, the distribution of
  line 42, \<open>reserve\<close> of line 45, and the three loops.
\<close>

definition generateFeaturePoints :: "allocator \<Rightarrow> rng \<Rightarrow> nat \<Rightarrow> nat \<Rightarrow> error + Vector3i list" where
  "generateFeaturePoints alloc rnd size' gridSize =
     (if gridSize = 0 then Inl DivisionByZero
      else
        let sizeOfEachCell = gen_sizeOfEachCell size' gridSize
        in if sizeOfEachCell - 1 < 0 then Inl EmptyDistribution
           else
             let capacity = size_t (size' * size' * size')
             in if \<not> alloc capacity 12 then Inl AllocationFailure
                else map_sum id snd
                  (fold (\<lambda>i.
                     fold (\<lambda>j.
                       fold (\<lambda>k. emplace_back alloc rnd sizeOfEachCell capacity i j k)
                         [0..<gridSize])
                       [0..<gridSize])
                     [0..<gridSize] (Inr (0, []))))"

subsection \<open>The distance field evaluator\<close>

text \<open>The lambda \<open>toLinearIndex\<close> (lines 77 to 80).\<close>

definition toLinearIndex :: "nat \<Rightarrow> nat \<Rightarrow> nat \<Rightarrow> nat \<Rightarrow> nat" where
  "toLinearIndex size' w h d = size_t (w + h * size' + d * size' * size')"

text \<open>
  The locals \<open>sizeOfEachCell\<close> and \<open>maxCellDistance\<close> of \<open>worleyNoise3D\<close> (lines 83
  and 84). Both operands of \<open>size / gridSize\<close> are \<open>std::size_t\<close>, so the division is the
  integer division, and its result is converted to \<open>float\<close>.
\<close>

definition worley_sizeOfEachCell :: "(real \<Rightarrow> real) \<Rightarrow> nat \<Rightarrow> nat \<Rightarrow> real" where
  "worley_sizeOfEachCell rd size' gridSize = rd (real (size' div gridSize))"

definition maxCellDistance :: "(real \<Rightarrow> real) \<Rightarrow> nat \<Rightarrow> nat \<Rightarrow> real" where
  "maxCellDistance rd size' gridSize =
     rd (sqrt (rd (rd (worley_sizeOfEachCell rd size' gridSize
                        * worley_sizeOfEachCell rd size' gridSize) * 3)))"

text \<open>\<open>std::numeric_limits<float>::max()\<close>, that is \<open>2 ^ 128 - 2 ^ 104\<close>.\<close>

definition FLT_MAX :: real where
  "FLT_MAX = 340282346638528859811704183484516925440"

text \<open>The scan over all feature points for one voxel (lines 93 to 100).\<close>

definition nearest :: "(real \<Rightarrow> real) \<Rightarrow> Vector3i list \<Rightarrow> Vector3f \<Rightarrow> real" where
  "nearest rd featurePoints voxel =
     fold (\<lambda>point m.
             let d = distance rd (toVector3f rd point) voxel
             in if d < m then d else m)
          featurePoints FLT_MAX"

text \<open>The value that line 101 computes for the voxel \<open>(x, y, z)\<close>.\<close>

definition noiseValue :: "(real \<Rightarrow> real) \<Rightarrow> Vector3i list \<Rightarrow> real \<Rightarrow> nat \<Rightarrow> nat \<Rightarrow> nat \<Rightarrow> real" where
  "noiseValue rd featurePoints maxDist x y z =
     rd (1 - mapValue rd
               (nearest rd featurePoints \<lparr>vx = rd (real x), vy = rd (real y), vz = rd (real z)\<rparr>)
               0 maxDist 0 1)"

text \<open>\<open>resultNoise[i] = v\<close>: \<open>operator[]\<close> does not check its index.\<close>

definition store :: "nat \<Rightarrow> real \<Rightarrow> error + real list \<Rightarrow> error + real list" where
  "store i v resultNoise =
     (case resultNoise of
        Inl e \<Rightarrow> Inl e
      | Inr xs \<Rightarrow> if i < length xs then Inr (xs[i := v]) else Inl IndexOutOfRange)"

text \<open>
  \<open>worleyNoise3D\<close> (lines 75 to 107): the vector of line 82, the division of line 83, the
  call of line 85, and the three loops.
\<close>

definition worleyNoise3D ::
    "(real \<Rightarrow> real) \<Rightarrow> allocator \<Rightarrow> rng \<Rightarrow> nat \<Rightarrow> nat \<Rightarrow> error + real list" where
  "worleyNoise3D rd alloc rnd size' gridSize =
     (let n = size_t (size' * size' * size')
      in if \<not> alloc n 4 then Inl AllocationFailure
         else if gridSize = 0 then Inl DivisionByZero
         else
           case generateFeaturePoints alloc rnd size' gridSize of
             Inl e \<Rightarrow> Inl e
           | Inr featurePoints \<Rightarrow>
               fold (\<lambda>x.
                 fold (\<lambda>y.
                   fold (\<lambda>z.
                     store (toLinearIndex size' x y z)
                       (noiseValue rd featurePoints (maxCellDistance rd size' gridSize) x y z))
                     [0..<size'])
                   [0..<size'])
                 [0..<size'] (Inr (replicate n 0)))"

text \<open>The precondition of both functions, as the interface states it.\<close>

definition valid_input :: "nat \<Rightarrow> nat \<Rightarrow> bool" where
  "valid_input size' gridSize = (0 < gridSize \<and> gridSize \<le> size')"

text \<open>
  The sizes whose cube, the number of voxels, is a value of \<open>std::size_t\<close>. For these no
  integer of the program wraps around (lemma \<open>no_wrap_around\<close>), and \<open>worleyNoise3D\<close>
  returns an array for no other size (lemma \<open>worleyNoise3D_Inr_D\<close>).
\<close>

definition representable :: "nat \<Rightarrow> bool" where
  "representable size' = (size' * size' * size' < 2 ^ 64)"

subsection \<open>Closed forms used in the proofs\<close>

text \<open>
  \<open>cell_point rnd c g n\<close> is the \<open>n\<close>-th point that the loops of the generator append,
  for the cell \<open>(n div (g * g), (n div g) mod g, n mod g)\<close>. \<open>written s f D r\<close> says
  that \<open>r\<close> is an array of \<open>s * s * s\<close> values that holds \<open>f x y z\<close> at the linear index of
  each voxel \<open>(x, y, z)\<close> of \<open>D\<close>.
\<close>

definition cell_point :: "rng \<Rightarrow> int \<Rightarrow> nat \<Rightarrow> nat \<Rightarrow> Vector3i" where
  "cell_point rnd c g n =
     \<lparr>vx = cell_coordinate c (n div (g * g)) (rnd (3 * n)),
       vy = cell_coordinate c ((n div g) mod g) (rnd (3 * n + 1)),
       vz = cell_coordinate c (n mod g) (rnd (3 * n + 2))\<rparr>"

definition written :: "nat \<Rightarrow> (nat \<Rightarrow> nat \<Rightarrow> nat \<Rightarrow> real) \<Rightarrow> (nat \<times> nat \<times> nat) set \<Rightarrow>
    error + real list \<Rightarrow> bool" where
  "written s f D r =
     (\<exists>xs. r = Inr xs \<and> length xs = s * s * s \<and>
        (\<forall>x y z. (x, y, z) \<in> D \<longrightarrow> xs ! toLinearIndex s x y z = f x y z))"

section \<open>Rounding to single precision\<close>

lemma rne_of_int: "rne (of_int n) = n"
  by (simp add: rne_def)

lemma rne_cases: "rne y = \<lfloor>y\<rfloor> \<or> rne y = \<lfloor>y\<rfloor> + 1"
  by (simp add: rne_def Let_def)

lemma rne_error: "\<bar>of_int (rne y) - y\<bar> \<le> 1 / 2"
  unfolding rne_def Let_def by (auto simp: abs_le_iff)

lemma rne_mono:
  assumes "y \<le> y'"
  shows "rne y \<le> rne y'"
proof (cases "\<lfloor>y\<rfloor> = \<lfloor>y'\<rfloor>")
  case True
  with assms show ?thesis by (auto simp: rne_def Let_def)
next
  case False
  with assms have "\<lfloor>y\<rfloor> < \<lfloor>y'\<rfloor>" by (simp add: floor_mono order.not_eq_order_implies_strict)
  moreover have "rne y \<le> \<lfloor>y\<rfloor> + 1" using rne_cases [of y] by auto
  moreover have "\<lfloor>y'\<rfloor> \<le> rne y'" using rne_cases [of y'] by auto
  ultimately show ?thesis by linarith
qed

lemma rne_nearest:
  assumes "\<bar>y - of_int k\<bar> < 1 / 2"
  shows "rne y = k"
proof -
  from rne_error [of y] assms have "\<bar>real_of_int (rne y) - of_int k\<bar> < 1" by linarith
  then have "\<bar>real_of_int (rne y - k)\<bar> < 1" by simp
  then have "\<bar>rne y - k\<bar> < 1" by (metis of_int_abs of_int_less_1_iff)
  then show ?thesis by simp
qed

text \<open>The binade of a positive number.\<close>

lemma binade:
  assumes "0 < x"
  shows "2 powi \<lfloor>log 2 x\<rfloor> \<le> x" and "x < 2 powi (\<lfloor>log 2 x\<rfloor> + 1)"
proof -
  from floor_log_eq_powr_iff [of x 2 "\<lfloor>log 2 x\<rfloor>"] assms
  have "2 powr real_of_int \<lfloor>log 2 x\<rfloor> \<le> x \<and> x < 2 powr (real_of_int \<lfloor>log 2 x\<rfloor> + 1)" by simp
  moreover have "2 powr (real_of_int \<lfloor>log 2 x\<rfloor> + 1) = 2 powr real_of_int (\<lfloor>log 2 x\<rfloor> + 1)"
    by simp
  ultimately show "2 powi \<lfloor>log 2 x\<rfloor> \<le> x" and "x < 2 powi (\<lfloor>log 2 x\<rfloor> + 1)"
    by (simp_all only: powr_real_of_int' [of 2, simplified])
qed

lemma binade_unique:
  assumes "2 powi e \<le> x" "x < 2 powi (e + 1)"
  shows "\<lfloor>log 2 x\<rfloor> = e"
proof -
  have "0 < (2 :: real) powi e" by simp
  with assms(1) have x: "0 < x" by linarith
  have "2 powr real_of_int e \<le> x \<and> x < 2 powr (real_of_int e + 1)"
    using assms powr_real_of_int' [of 2 e] powr_real_of_int' [of 2 "e + 1"] by simp
  with floor_log_eq_powr_iff [of x 2 e] x show ?thesis by simp
qed

lemma float32_0: "float32 0 = 0"
  by (simp add: float32_def)

lemma float32_minus: "float32 (- x) = - float32 x"
  by (simp add: float32_def Let_def sgn_minus)

lemma float32_pos_eq:
  assumes "0 < x"
  shows "float32 x = of_int (rne (x / 2 powi (\<lfloor>log 2 x\<rfloor> - 23))) * 2 powi (\<lfloor>log 2 x\<rfloor> - 23)"
  using assms by (simp add: float32_def Let_def)

lemma powi_split: "(2 :: real) powi (e + 23) = 2 ^ 23 * 2 powi e"
  by (simp add: power_int_add)

lemma powi_split': "(2 :: real) powi (e + 24) = 2 ^ 24 * 2 powi e"
  by (simp add: power_int_add)

lemma powi_lo: "(2 :: real) powi e = 2 ^ 23 * 2 powi (e - 23)"
  using powi_split [of "e - 23"] by simp

lemma powi_hi: "(2 :: real) powi (e + 1) = 2 ^ 24 * 2 powi (e - 23)"
  using powi_split' [of "e - 23"] by (simp add: add.commute)

lemma float32_eqI:
  assumes "2 ^ 23 \<le> x / 2 powi j" "x / 2 powi j < 2 ^ 24" "rne (x / 2 powi j) = k"
  shows "float32 x = of_int k * 2 powi j"
proof -
  have u: "0 < (2 :: real) powi j" by simp
  from assms(1) u have lo: "2 powi (j + 23) \<le> x"
    by (simp add: powi_split pos_le_divide_eq)
  from assms(2) u have hi: "x < 2 powi (j + 23 + 1)"
    using powi_split' [of j] by (simp add: pos_divide_less_eq add.assoc)
  have "0 < (2 :: real) powi (j + 23)" by simp
  with lo have x: "0 < x" by linarith
  have "\<lfloor>log 2 x\<rfloor> = j + 23" by (rule binade_unique [OF lo hi])
  with float32_pos_eq [OF x] assms(3) show ?thesis by simp
qed

lemma scaled_range:
  assumes "0 < x"
  shows "2 ^ 23 \<le> x / 2 powi (\<lfloor>log 2 x\<rfloor> - 23)"
    and "x / 2 powi (\<lfloor>log 2 x\<rfloor> - 23) < 2 ^ 24"
proof -
  let ?j = "\<lfloor>log 2 x\<rfloor> - 23"
  have u: "0 < (2 :: real) powi ?j" by simp
  from binade(1) [OF assms] have "2 ^ 23 * 2 powi ?j \<le> x"
    by (simp only: powi_lo [symmetric])
  then show "2 ^ 23 \<le> x / 2 powi ?j"
    using u by (simp add: pos_le_divide_eq)
  from binade(2) [OF assms] have "x < 2 ^ 24 * 2 powi ?j"
    by (simp only: powi_hi [symmetric])
  then show "x / 2 powi ?j < 2 ^ 24"
    using u by (simp add: pos_divide_less_eq)
qed

lemma rne_scaled_range:
  assumes "2 ^ 23 \<le> y" "y < 2 ^ 24"
  shows "2 ^ 23 \<le> rne y" and "rne y \<le> 2 ^ 24"
proof -
  have "rne (of_int (2 ^ 23)) \<le> rne y" by (rule rne_mono) (use assms in simp)
  then show "2 ^ 23 \<le> rne y" by (simp only: rne_of_int)
  have "rne y \<le> rne (of_int (2 ^ 24))" by (rule rne_mono) (use assms in simp)
  then show "rne y \<le> 2 ^ 24" by (simp only: rne_of_int)
qed

lemma float32_range:
  assumes "0 < x"
  shows "2 powi \<lfloor>log 2 x\<rfloor> \<le> float32 x" and "float32 x \<le> 2 powi (\<lfloor>log 2 x\<rfloor> + 1)"
proof -
  let ?j = "\<lfloor>log 2 x\<rfloor> - 23"
  have u: "0 < (2 :: real) powi ?j" by simp
  note r = rne_scaled_range [OF scaled_range [OF assms]]
  have "(2 :: real) ^ 23 \<le> real_of_int (rne (x / 2 powi ?j))"
    using r(1) by (metis of_int_le_iff of_int_numeral of_int_power)
  then have "2 ^ 23 * 2 powi ?j \<le> real_of_int (rne (x / 2 powi ?j)) * 2 powi ?j"
    using u by (intro mult_right_mono) (simp_all add: less_imp_le)
  then show "2 powi \<lfloor>log 2 x\<rfloor> \<le> float32 x"
    by (simp only: float32_pos_eq [OF assms] powi_lo [symmetric])
  have "real_of_int (rne (x / 2 powi ?j)) \<le> 2 ^ 24" using r(2) by (metis of_int_le_iff of_int_numeral of_int_power)
  then have "real_of_int (rne (x / 2 powi ?j)) * 2 powi ?j \<le> 2 ^ 24 * 2 powi ?j"
    using u by (intro mult_right_mono) (simp_all add: less_imp_le)
  then show "float32 x \<le> 2 powi (\<lfloor>log 2 x\<rfloor> + 1)"
    by (simp only: float32_pos_eq [OF assms] powi_hi [symmetric])
qed

lemma float32_pos: "0 < x \<Longrightarrow> 0 < float32 x"
  using float32_range(1) [of x] zero_less_power_int [of "2 :: real" "\<lfloor>log 2 x\<rfloor>"] by linarith

lemma float32_mono_pos:
  assumes "0 < x" "x \<le> y"
  shows "float32 x \<le> float32 y"
proof -
  from assms have y: "0 < y" by linarith
  have le: "\<lfloor>log 2 x\<rfloor> \<le> \<lfloor>log 2 y\<rfloor>"
    using assms by (intro floor_mono) simp
  show ?thesis
  proof (cases "\<lfloor>log 2 x\<rfloor> = \<lfloor>log 2 y\<rfloor>")
    case True
    let ?u = "2 powi (\<lfloor>log 2 y\<rfloor> - 23) :: real"
    have u: "0 < ?u" by simp
    from assms(2) u have "x / ?u \<le> y / ?u" by (simp add: divide_right_mono)
    then have "rne (x / ?u) \<le> rne (y / ?u)" by (rule rne_mono)
    then have "real_of_int (rne (x / ?u)) * ?u \<le> real_of_int (rne (y / ?u)) * ?u"
      using u by (intro mult_right_mono) simp_all
    then show ?thesis
      by (simp add: float32_pos_eq [OF assms(1)] float32_pos_eq [OF y] True)
  next
    case False
    with le have "\<lfloor>log 2 x\<rfloor> + 1 \<le> \<lfloor>log 2 y\<rfloor>" by simp
    then have "(2 :: real) powi (\<lfloor>log 2 x\<rfloor> + 1) \<le> 2 powi \<lfloor>log 2 y\<rfloor>"
      by (intro power_int_increasing) simp_all
    with float32_range(2) [OF assms(1)] float32_range(1) [OF y] show ?thesis by linarith
  qed
qed

lemma float32_mono:
  assumes "x \<le> y"
  shows "float32 x \<le> float32 y"
proof -
  consider "0 < x" | "x \<le> 0" "0 < y" | "x < 0" "y = 0" | "x = 0" "y = 0" | "x < 0" "y < 0"
    using assms by linarith
  then show ?thesis
  proof cases
    case 1
    then show ?thesis using assms by (rule float32_mono_pos)
  next
    case 2
    have "float32 x \<le> 0"
    proof (cases "x = 0")
      case True
      then show ?thesis by (simp add: float32_0)
    next
      case False
      with 2 have "0 < - x" by simp
      from float32_pos [OF this] show ?thesis by (simp add: float32_minus)
    qed
    with float32_pos [OF 2(2)] show ?thesis by linarith
  next
    case 3
    then have "0 < - x" by simp
    from float32_pos [OF this] 3 show ?thesis by (simp add: float32_minus float32_0)
  next
    case 4
    then show ?thesis by simp
  next
    case 5
    then have "0 < - y" "- y \<le> - x" using assms by simp_all
    from float32_mono_pos [OF this] show ?thesis by (simp add: float32_minus)
  qed
qed

lemma float32_exact_pos':
  assumes "2 ^ 23 \<le> k" "k < 2 ^ 24"
  shows "float32 (of_int k * 2 powi j) = of_int k * 2 powi j"
proof -
  have s: "real_of_int k * 2 powi j / 2 powi j = real_of_int k" by simp
  have "(2 :: real) ^ 23 \<le> real_of_int k"
    using assms(1) by (metis of_int_le_iff of_int_numeral of_int_power)
  moreover have "real_of_int k < 2 ^ 24"
    using assms(2) by (metis of_int_less_iff of_int_numeral of_int_power)
  ultimately show ?thesis
    by (intro float32_eqI) (simp_all only: s rne_of_int)
qed

lemma float32_exact_pos:
  assumes "2 ^ 23 \<le> k" "k \<le> 2 ^ 24"
  shows "float32 (of_int k * 2 powi j) = of_int k * 2 powi j"
proof (cases "k = 2 ^ 24")
  case True
  have "real_of_int k * 2 powi j = of_int 8388608 * 2 powi (j + 1)"
    by (simp add: True power_int_add)
  moreover have "float32 (of_int 8388608 * 2 powi (j + 1)) = of_int 8388608 * 2 powi (j + 1)"
    by (rule float32_exact_pos') simp_all
  ultimately show ?thesis by (simp only:)
next
  case False
  with assms have "k < 2 ^ 24" by simp
  with assms(1) show ?thesis by (rule float32_exact_pos')
qed

lemma float32_idem_pos:
  assumes "0 < x"
  shows "float32 (float32 x) = float32 x"
  unfolding float32_pos_eq [OF assms]
  by (rule float32_exact_pos) (rule rne_scaled_range [OF scaled_range [OF assms]])+

lemma float32_idem: "float32 (float32 x) = float32 x"
proof -
  consider "0 < x" | "x = 0" | "0 < - x" by linarith
  then show ?thesis
  proof cases
    case 1
    then show ?thesis by (rule float32_idem_pos)
  next
    case 2
    then show ?thesis by (simp add: float32_0)
  next
    case 3
    from float32_idem_pos [OF this] show ?thesis by (simp add: float32_minus)
  qed
qed

lemma float32_error_pos:
  assumes "0 < x"
  shows "\<bar>float32 x - x\<bar> \<le> x / 2 ^ 24"
proof -
  let ?u = "2 powi (\<lfloor>log 2 x\<rfloor> - 23) :: real"
  have u: "0 < ?u" by simp
  have "float32 x - x = (real_of_int (rne (x / ?u)) - x / ?u) * ?u"
    using u by (simp add: float32_pos_eq [OF assms] algebra_simps)
  then have "\<bar>float32 x - x\<bar> = \<bar>real_of_int (rne (x / ?u)) - x / ?u\<bar> * ?u"
    using u by (simp add: abs_mult)
  also have "\<dots> \<le> 1 / 2 * ?u"
    using u rne_error [of "x / ?u"] by (intro mult_right_mono) simp_all
  also have "\<dots> \<le> x / 2 ^ 24"
  proof -
    from scaled_range(1) [OF assms] u have "2 ^ 23 * ?u \<le> x"
      by (simp add: pos_le_divide_eq)
    then show ?thesis by simp
  qed
  finally show ?thesis .
qed

lemma float32_error: "\<bar>float32 x - x\<bar> \<le> \<bar>x\<bar> / 2 ^ 24"
proof -
  consider "0 < x" | "x = 0" | "0 < - x" by linarith
  then show ?thesis
  proof cases
    case 1
    with float32_error_pos [OF 1] show ?thesis by simp
  next
    case 2
    then show ?thesis by (simp add: float32_0)
  next
    case 3
    from float32_error_pos [OF 3] have "\<bar>- float32 x + x\<bar> \<le> - x / 2 ^ 24"
      by (simp add: float32_minus)
    moreover have "\<bar>- float32 x + x\<bar> = \<bar>float32 x - x\<bar>" by (simp add: abs_minus_commute)
    ultimately show ?thesis using 3 by simp
  qed
qed

lemma float32_of_int_pos:
  assumes "0 < n" "n \<le> 2 ^ 24"
  shows "float32 (of_int n) = of_int n"
proof -
  let ?x = "real_of_int n"
  let ?e = "\<lfloor>log 2 ?x\<rfloor>"
  from assms(1) have x12: "0 < ?x" "1 \<le> ?x" by simp_all
  from assms(2) have x3: "?x \<le> 2 ^ 24"
    by (metis of_int_le_iff of_int_numeral of_int_power)
  note x = x12 x3
  have e0: "0 \<le> ?e" using x(2) by simp
  have "?e \<le> 24"
  proof (rule ccontr)
    assume "\<not> ?e \<le> 24"
    then have "25 \<le> ?e" by simp
    then have "(2 :: real) powi 25 \<le> 2 powi ?e" by (intro power_int_increasing) simp_all
    with binade(1) [OF x(1)] x(3) show False by simp
  qed
  show ?thesis
  proof (cases "?e = 24")
    case True
    with binade(1) [OF x(1)] x(3) have "?x = 2 ^ 24" by simp
    then have "?x = of_int (2 ^ 24) * 2 powi 0" by simp
    moreover have "float32 (of_int (2 ^ 24) * 2 powi 0) = of_int (2 ^ 24) * 2 powi 0"
      by (rule float32_exact_pos) simp_all
    ultimately show ?thesis by (simp only:)
  next
    case False
    with \<open>?e \<le> 24\<close> have e: "?e \<le> 23" by linarith
    define m where "m = nat (23 - ?e)"
    have m: "int m = 23 - ?e" using e by (simp add: m_def)
    have "(2 :: real) powi (?e - 23) = 2 powi (- int m)" by (simp add: m)
    also have "\<dots> = 1 / 2 ^ m" by (simp add: power_int_minus_divide)
    finally have u: "(2 :: real) powi (?e - 23) = 1 / 2 ^ m" .
    have s: "?x / (1 / 2 ^ m) = of_int (n * 2 ^ m)" by simp
    have "float32 ?x = of_int (rne (?x / 2 powi (?e - 23))) * 2 powi (?e - 23)"
      by (rule float32_pos_eq [OF x(1)])
    also have "\<dots> = of_int (n * 2 ^ m) * (1 / 2 ^ m)"
      by (simp only: u s rne_of_int)
    finally show ?thesis by simp
  qed
qed

lemma float32_of_int:
  assumes "\<bar>n\<bar> \<le> 2 ^ 24"
  shows "float32 (of_int n) = of_int n"
proof -
  consider "0 < n" | "n = 0" | "0 < - n" by linarith
  then show ?thesis
  proof cases
    case 1
    with assms show ?thesis by (intro float32_of_int_pos) simp_all
  next
    case 2
    then show ?thesis by (simp add: float32_0)
  next
    case 3
    with assms have "float32 (of_int (- n)) = of_int (- n)" by (intro float32_of_int_pos) simp_all
    then show ?thesis by (simp add: float32_minus)
  qed
qed

lemma rounding_float32: "rounding float32"
  unfolding rounding_def
  using float32_mono float32_minus float32_idem float32_of_int float32_error by blast

lemma rounding_exact: "rounding (\<lambda>x. x)"
  by (simp add: rounding_def)

lemma rne_above_half:
  assumes "of_int n + 1 / 2 < y"
  shows "n + 1 \<le> rne y"
proof (cases "\<lfloor>y\<rfloor> = n")
  case True
  with assms have "1 / 2 < y - of_int \<lfloor>y\<rfloor>" by simp
  then have "rne y = \<lfloor>y\<rfloor> + 1" by (simp add: rne_def Let_def)
  with True show ?thesis by simp
next
  case False
  from assms have "of_int n \<le> y" by simp
  then have "n \<le> \<lfloor>y\<rfloor>" by (simp add: le_floor_iff)
  with False have "n + 1 \<le> \<lfloor>y\<rfloor>" by simp
  moreover have "\<lfloor>y\<rfloor> \<le> rne y" using rne_cases [of y] by auto
  ultimately show ?thesis by simp
qed

lemma float32_gap:
  assumes "float32 a = a" "float32 b = b" "0 < b" "b < a"
  shows "b * (1 + 1 / 2 ^ 24) < a"
proof -
  define u :: real where "u = 2 powi (\<lfloor>log 2 b\<rfloor> - 23)"
  define k where "k = rne (b / u)"
  have u: "0 < u" by (simp add: u_def)
  have "b = of_int k * u"
    using float32_pos_eq [OF assms(3)] assms(2) by (simp add: u_def k_def)
  then have bk: "b / u = of_int k" using u by simp
  have r: "2 ^ 23 \<le> b / u" "b / u < 2 ^ 24"
    using scaled_range [OF assms(3)] by (simp_all add: u_def)
  have "real_of_int k < real_of_int (2 ^ 24)" using r(2) bk by simp
  then have "k < 2 ^ 24" by (simp only: of_int_less_iff)
  then have "k + 1 \<le> 2 ^ 24" by simp
  then have "real_of_int (k + 1) \<le> real_of_int (2 ^ 24)" by (simp only: of_int_le_iff)
  then have k1: "real_of_int k + 1 \<le> 2 ^ 24" by simp
  have step: "b + u \<le> a"
  proof (rule ccontr)
    assume "\<not> b + u \<le> a"
    then have "a < b + u" by simp
    then have "a / u < (b + u) / u" using u by (rule divide_strict_right_mono)
    also have "(b + u) / u = b / u + 1" using u by (simp add: add_divide_distrib)
    finally have hi: "a / u < of_int k + 1" by (simp only: bk)
    from assms(4) have "b / u < a / u" using u by (rule divide_strict_right_mono)
    then have lo: "of_int k < a / u" by (simp only: bk)
    from lo r(1) bk have a23: "2 ^ 23 \<le> a / u" by linarith
    from hi k1 have a24: "a / u < 2 ^ 24" by linarith
    have fl: "\<lfloor>a / u\<rfloor> = k" using lo hi by (intro floor_unique) simp_all
    have "float32 a = of_int (rne (a / u)) * u"
      unfolding u_def by (rule float32_eqI [OF _ _ refl]) (use a23 a24 in \<open>simp_all only: u_def\<close>)
    with assms(1) have "a = of_int (rne (a / u)) * u" by simp
    then have "a / u = of_int (rne (a / u)) * u / u" by simp
    then have e: "a / u = of_int (rne (a / u))" using u by simp
    have "rne (a / u) = k \<or> rne (a / u) = k + 1"
      using rne_cases [of "a / u"] by (simp only: fl)
    then show False
    proof
      assume "rne (a / u) = k"
      with e lo show False by simp
    next
      assume "rne (a / u) = k + 1"
      with e hi show False by simp
    qed
  qed
  from r(2) u have "b < 2 ^ 24 * u" by (simp add: pos_divide_less_eq)
  then have "b / 2 ^ 24 < u" by simp
  with step have "b + b / 2 ^ 24 < a" by linarith
  then show ?thesis by (simp add: distrib_left)
qed

lemma float32_above_one:
  assumes "1 + 1 / 2 ^ 24 < q"
  shows "1 + 1 / 2 ^ 23 \<le> float32 q"
proof -
  define q0 where "q0 = min q (3 / 2)"
  have q0: "1 + 1 / 2 ^ 24 < q0" "q0 \<le> 3 / 2" "q0 \<le> q"
    using assms by (simp_all add: q0_def)
  have s: "q0 / 2 powi (- 23) = q0 * 2 ^ 23"
    by (simp add: power_int_minus_divide)
  have "of_int 8388608 + 1 / 2 < q0 * 2 ^ 23" using q0(1) by simp
  then have "8388608 + 1 \<le> rne (q0 * 2 ^ 23)" by (rule rne_above_half)
  then have k: "(8388609 :: real) \<le> of_int (rne (q0 * 2 ^ 23))" by linarith
  have "float32 q0 = of_int (rne (q0 / 2 powi (- 23))) * 2 powi (- 23)"
    by (rule float32_eqI [OF _ _ refl]) (use q0 in \<open>simp_all add: s\<close>)
  then have "float32 q0 = of_int (rne (q0 * 2 ^ 23)) / 2 ^ 23"
    by (simp add: s power_int_minus_divide)
  with k have "1 + 1 / 2 ^ 23 \<le> float32 q0" by (simp add: field_simps)
  with float32_mono [OF q0(3)] show ?thesis by linarith
qed

lemma float32_negative: "x < 0 \<Longrightarrow> float32 x < 0"
  using float32_pos [of "- x"] by (simp add: float32_minus)

lemma float32_inverted_negative:
  assumes "float32 m = m" "float32 M = M" "0 < M" "M < m"
  shows "float32 (1 - float32 (m / M)) < 0"
proof -
  from float32_gap [OF assms] assms(3) have "1 + 1 / 2 ^ 24 < m / M"
    by (simp add: pos_less_divide_eq mult.commute)
  from float32_above_one [OF this] have "1 < float32 (m / M)" by simp
  then show ?thesis by (intro float32_negative) simp
qed

lemma real_of_int_le_numeral_power:
  fixes k :: int
  shows "k \<le> 2 ^ n \<Longrightarrow> real_of_int k \<le> 2 ^ n"
    and "2 ^ n \<le> k \<Longrightarrow> 2 ^ n \<le> real_of_int k"
proof -
  assume "k \<le> 2 ^ n"
  then have "real_of_int k \<le> real_of_int (2 ^ n)" by (simp only: of_int_le_iff)
  then show "real_of_int k \<le> 2 ^ n" by simp
next
  assume "2 ^ n \<le> k"
  then have "real_of_int (2 ^ n) \<le> real_of_int k" by (simp only: of_int_le_iff)
  then show "2 ^ n \<le> real_of_int k" by simp
qed

lemma float32_sqrt_eqI:
  assumes "2 ^ 23 < k" "k < 2 ^ 24"
    and "((of_int k - 1 / 2) * 2 powi j)\<^sup>2 < S"
    and "S < ((of_int k + 1 / 2) * 2 powi j)\<^sup>2"
  shows "float32 (sqrt S) = of_int k * 2 powi j"
proof -
  define u :: real where "u = 2 powi j"
  define y where "y = sqrt S / u"
  have u: "0 < u" by (simp add: u_def)
  from assms(1) have "2 ^ 23 \<le> k" by simp
  then have k23: "(2 :: real) ^ 23 \<le> of_int k" by (rule real_of_int_le_numeral_power(2))
  from assms(1) have "2 ^ 23 + 1 \<le> k" by simp
  then have "real_of_int (2 ^ 23 + 1) \<le> real_of_int k" by (simp only: of_int_le_iff)
  then have k23': "(2 :: real) ^ 23 + 1 \<le> of_int k" by simp
  from assms(2) have "k + 1 \<le> 2 ^ 24" by simp
  then have "real_of_int (k + 1) \<le> 2 ^ 24" by (rule real_of_int_le_numeral_power(1))
  then have k24: "real_of_int k + 1 \<le> 2 ^ 24" by simp
  have "0 \<le> real_of_int k - 1 / 2" using k23 by simp
  have hi0: "0 \<le> (of_int k + 1 / 2) * u"
    using k23 u by (intro mult_nonneg_nonneg) simp_all
  have "(of_int k - 1 / 2) * u < sqrt S"
    using assms(3) unfolding u_def by (rule real_less_rsqrt)
  then have lo: "of_int k - 1 / 2 < y"
    unfolding y_def using u by (simp only: pos_less_divide_eq)
  have "sqrt S < (of_int k + 1 / 2) * u"
    using hi0 assms(4) unfolding u_def by (rule real_less_lsqrt)
  then have hi: "y < of_int k + 1 / 2"
    unfolding y_def using u by (simp only: pos_divide_less_eq)
  have "\<bar>y - of_int k\<bar> < 1 / 2" using lo hi by (simp only: abs_less_iff) linarith
  then have "rne y = k" by (rule rne_nearest)
  moreover have "2 ^ 23 \<le> y" using lo k23' by linarith
  moreover have "y < 2 ^ 24" using hi k24 by linarith
  ultimately show ?thesis
    unfolding y_def u_def by (intro float32_eqI)
qed

lemma sqrtf_16793870: "float32 (sqrt 16793870) = 8392770 / 2048"
proof -
  have "float32 (sqrt 16793870) = of_int 8392770 * 2 powi (- 11)"
    by (rule float32_sqrt_eqI) (simp_all add: power_int_minus_divide power2_eq_square)
  then show ?thesis by (simp add: power_int_minus_divide)
qed

lemma sqrtf_16793868: "float32 (sqrt 16793868) = 8392770 / 2048"
proof -
  have "float32 (sqrt 16793868) = of_int 8392770 * 2 powi (- 11)"
    by (rule float32_sqrt_eqI) (simp_all add: power_int_minus_divide power2_eq_square)
  then show ?thesis by (simp add: power_int_minus_divide)
qed

section \<open>Consequences of \<open>rounding\<close>\<close>

lemma rd_mono: "rounding rd \<Longrightarrow> x \<le> y \<Longrightarrow> rd x \<le> rd y"
  by (simp add: rounding_def)

lemma rd_minus: "rounding rd \<Longrightarrow> rd (- x) = - rd x"
  by (simp add: rounding_def)

lemma rd_idem: "rounding rd \<Longrightarrow> rd (rd x) = rd x"
  by (simp add: rounding_def)

lemma rd_of_int: "rounding rd \<Longrightarrow> \<bar>n\<bar> \<le> 2 ^ 24 \<Longrightarrow> rd (of_int n) = of_int n"
  by (simp add: rounding_def)

lemma rd_error: "rounding rd \<Longrightarrow> \<bar>rd x - x\<bar> \<le> \<bar>x\<bar> / 2 ^ 24"
  by (simp add: rounding_def)

lemma rd_0: "rounding rd \<Longrightarrow> rd 0 = 0"
  using rd_of_int [of rd 0] by simp

lemma rd_1: "rounding rd \<Longrightarrow> rd 1 = 1"
  using rd_of_int [of rd 1] by simp

lemma rd_3: "rounding rd \<Longrightarrow> rd 3 = 3"
  using rd_of_int [of rd 3] by simp

lemma rd_of_nat: "rounding rd \<Longrightarrow> n \<le> 2 ^ 24 \<Longrightarrow> rd (real n) = real n"
  using rd_of_int [of rd "int n"] by simp

lemma rd_nonneg: "rounding rd \<Longrightarrow> 0 \<le> x \<Longrightarrow> 0 \<le> rd x"
  using rd_mono [of rd 0 x] by (simp add: rd_0)

lemma rd_abs: "rounding rd \<Longrightarrow> rd \<bar>x\<bar> = \<bar>rd x\<bar>"
proof (cases "0 \<le> x")
  case True
  assume "rounding rd"
  with True rd_nonneg [of rd x] show ?thesis by simp
next
  case False
  assume r: "rounding rd"
  from False have "0 \<le> - x" by simp
  from rd_nonneg [OF r this] have "rd x \<le> 0" by (simp add: rd_minus [OF r])
  with False show ?thesis by (simp add: rd_minus [OF r])
qed

lemma rd_abs_mono:
  assumes "rounding rd" "\<bar>x\<bar> \<le> \<bar>y\<bar>"
  shows "\<bar>rd x\<bar> \<le> \<bar>rd y\<bar>"
  using rd_mono [OF assms] by (simp add: rd_abs [OF assms(1)])

lemma rd_le_double:
  assumes "rounding rd" "0 \<le> x"
  shows "rd x \<le> 2 * x"
proof -
  from rd_error [OF assms(1), of x] assms(2) have "\<bar>rd x - x\<bar> \<le> x / 2 ^ 24" by simp
  then have "rd x - x \<le> x / 2 ^ 24" by linarith
  moreover have "x / 2 ^ 24 \<le> x" using assms(2) by (simp add: field_simps)
  ultimately show ?thesis by linarith
qed

section \<open>Machine integers without wrap-around\<close>

lemma size_t_id: "n < 2 ^ 64 \<Longrightarrow> size_t n = n"
  by (simp add: size_t_def)

lemma int_to_size_t_id: "0 \<le> n \<Longrightarrow> n < 2 ^ 64 \<Longrightarrow> int_to_size_t n = nat n"
  by (simp add: int_to_size_t_def)

lemma static_cast_int_id: "- (2 ^ 31) \<le> n \<Longrightarrow> n < 2 ^ 31 \<Longrightarrow> static_cast_int n = n"
  by (simp add: static_cast_int_def)

lemma static_cast_int_range:
  "- (2 ^ 31) \<le> static_cast_int n" "static_cast_int n < 2 ^ 31"
proof -
  have "0 \<le> (n + 2 ^ 31) mod 2 ^ 32" by simp
  moreover have "(n + 2 ^ 31) mod 2 ^ 32 < 2 ^ 32" by simp
  ultimately show "- (2 ^ 31) \<le> static_cast_int n" "static_cast_int n < 2 ^ 31"
    unfolding static_cast_int_def by simp_all
qed

lemma representable_size:
  assumes "representable s"
  shows "s < 2 ^ 22"
proof (rule ccontr)
  assume "\<not> s < 2 ^ 22"
  then have s: "(2 :: nat) ^ 22 \<le> s" by simp
  have "(2 :: nat) ^ 22 * 2 ^ 22 * 2 ^ 22 \<le> s * s * s"
    by (intro mult_le_mono s)
  with assms show False by (simp add: representable_def)
qed

lemma cell_coordinate_id:
  assumes "0 \<le> c" "0 \<le> r" "int i * c + r < 2 ^ 31"
  shows "cell_coordinate c i r = int i * c + r"
proof -
  have ic: "0 \<le> int i * c" using assms(1) by simp
  have c: "c < 2 ^ 31 \<or> i = 0"
  proof (cases "i = 0")
    case False
    then have "1 \<le> int i" by simp
    then have "1 * c \<le> int i * c" using assms(1) by (intro mult_right_mono)
    with assms(2,3) show ?thesis by simp
  qed simp
  have r: "r < 2 ^ 31" using ic assms(3) by linarith
  have r': "int_to_size_t r = nat r" using assms(2) r by (intro int_to_size_t_id) simp_all
  have e: "int (i * int_to_size_t c + int_to_size_t r) = int i * c + r"
  proof (cases "i = 0")
    case True
    then show ?thesis using assms(2) by (simp add: r')
  next
    case False
    with c have "c < 2 ^ 31" by simp
    then have "int_to_size_t c = nat c" using assms(1) by (intro int_to_size_t_id) simp_all
    then show ?thesis using assms(1,2) by (simp add: r')
  qed
  have "i * int_to_size_t c + int_to_size_t r < 2 ^ 64"
  proof -
    have "int (i * int_to_size_t c + int_to_size_t r) < 2 ^ 64" using assms(3) by (simp only: e) simp
    then have "int (i * int_to_size_t c + int_to_size_t r) < int (2 ^ 64)" by simp
    then show ?thesis by (simp only: of_nat_less_iff)
  qed
  then have "size_t (i * int_to_size_t c + int_to_size_t r) = i * int_to_size_t c + int_to_size_t r"
    by (rule size_t_id)
  then have "cell_coordinate c i r = static_cast_int (int i * c + r)"
    by (simp only: cell_coordinate_def e)
  also have "\<dots> = int i * c + r"
    using ic assms(2,3) by (intro static_cast_int_id) simp_all
  finally show ?thesis .
qed

section \<open>The generator's loops\<close>

lemma cell_decode:
  fixes i j k g :: nat
  assumes "j < g" "k < g"
  shows "((i * g + j) * g + k) div (g * g) = i"
    and "(((i * g + j) * g + k) div g) mod g = j"
    and "((i * g + j) * g + k) mod g = k"
proof -
  have a: "((i * g + j) * g + k) div g = i * g + j"
    using assms by simp
  show "(((i * g + j) * g + k) div g) mod g = j"
    using assms by (simp add: a)
  show "((i * g + j) * g + k) mod g = k"
    using assms by simp
  have "((i * g + j) * g + k) div (g * g) = (((i * g + j) * g + k) div g) div g"
    by (simp add: div_mult2_eq)
  also have "\<dots> = i" using assms by (simp add: a)
  finally show "((i * g + j) * g + k) div (g * g) = i" .
qed

lemma cell_index_less:
  fixes i j k g :: nat
  assumes "i < g" "j < g" "k < g"
  shows "(i * g + j) * g + k < g * g * g"
proof -
  have "(i * g + j) * g + k < (i * g + j) * g + g" using assms(3) by simp
  also have "\<dots> = (i * g + Suc j) * g" by (simp add: algebra_simps)
  also have "\<dots> \<le> (i * g + g) * g"
    using assms(2) by (intro mult_le_mono1) simp
  also have "\<dots> = Suc i * g * g" by (simp add: algebra_simps)
  also have "\<dots> \<le> g * g * g"
    using assms(1) by (intro mult_le_mono1) simp
  finally show ?thesis .
qed

lemma loop_k:
  assumes "i < g" "j < g" "m \<le> g"
    and room: "\<And>n. n < g * g * g \<Longrightarrow> n < capacity \<or> alloc (Suc n) 12"
  shows "fold (\<lambda>k. emplace_back alloc rnd c capacity i j k) [0..<m]
           (Inr (3 * ((i * g + j) * g), map (cell_point rnd c g) [0..<(i * g + j) * g]))
         = Inr (3 * ((i * g + j) * g + m), map (cell_point rnd c g) [0..<(i * g + j) * g + m])"
  using assms(3)
proof (induction m)
  case 0
  then show ?case by simp
next
  case (Suc m)
  then have m: "m < g" by simp
  have "cell_point rnd c g ((i * g + j) * g + m) =
      \<lparr>vx = cell_coordinate c i (rnd (3 * ((i * g + j) * g + m))),
       vy = cell_coordinate c j (rnd (3 * ((i * g + j) * g + m) + 1)),
       vz = cell_coordinate c m (rnd (3 * ((i * g + j) * g + m) + 2))\<rparr>"
    unfolding cell_point_def using cell_decode [OF assms(2) m, of i] by simp
  moreover from room [OF cell_index_less [OF assms(1,2) m]]
  have "(i * g + j) * g + m < capacity \<or> alloc (Suc ((i * g + j) * g + m)) 12" .
  ultimately show ?case
    using Suc m by (simp add: emplace_back_def)
qed

lemma loop_j:
  assumes "i < g" "m \<le> g"
    and room: "\<And>n. n < g * g * g \<Longrightarrow> n < capacity \<or> alloc (Suc n) 12"
  shows "fold (\<lambda>j. fold (\<lambda>k. emplace_back alloc rnd c capacity i j k) [0..<g]) [0..<m]
           (Inr (3 * (i * g * g), map (cell_point rnd c g) [0..<i * g * g]))
         = Inr (3 * ((i * g + m) * g), map (cell_point rnd c g) [0..<(i * g + m) * g])"
  using assms(2)
proof (induction m)
  case 0
  then show ?case by simp
next
  case (Suc m)
  then have m: "m < g" by simp
  have e: "(i * g + m) * g + g = (i * g + Suc m) * g" by (simp add: algebra_simps)
  from Suc m show ?case
    using loop_k [where alloc = alloc and capacity = capacity and rnd = rnd and c = c, OF assms(1) m order_refl room]
    by (simp add: e)
qed

lemma loop_i:
  assumes "m \<le> g"
    and room: "\<And>n. n < g * g * g \<Longrightarrow> n < capacity \<or> alloc (Suc n) 12"
  shows "fold (\<lambda>i. fold (\<lambda>j. fold (\<lambda>k. emplace_back alloc rnd c capacity i j k) [0..<g]) [0..<g])
           [0..<m] (Inr (0, []))
         = Inr (3 * (m * g * g), map (cell_point rnd c g) [0..<m * g * g])"
  using assms(1)
proof (induction m)
  case 0
  then show ?case by simp
next
  case (Suc m)
  then have m: "m < g" by simp
  have e: "(m * g + g) * g = Suc m * g * g" by (simp add: algebra_simps)
  from Suc m show ?case
    using loop_j [where alloc = alloc and capacity = capacity and rnd = rnd and c = c, OF m order_refl room]
    by (simp add: e)
qed

lemma generateFeaturePoints_closed_form:
  assumes "gridSize \<noteq> 0" "1 \<le> gen_sizeOfEachCell size' gridSize"
    and "alloc (size_t (size' * size' * size')) 12"
    and "\<And>n. n < gridSize * gridSize * gridSize \<Longrightarrow>
           n < size_t (size' * size' * size') \<or> alloc (Suc n) 12"
  shows "generateFeaturePoints alloc rnd size' gridSize =
     Inr (map (cell_point rnd (gen_sizeOfEachCell size' gridSize) gridSize)
            [0..<gridSize * gridSize * gridSize])"
  using assms(1-3)
    loop_i [where alloc = alloc and capacity = "size_t (size' * size' * size')" and rnd = rnd
      and g = gridSize, OF order_refl assms(4)]
  by (simp add: generateFeaturePoints_def Let_def)

lemma cube_mono:
  fixes g s :: nat
  assumes "g \<le> s"
  shows "g * g * g \<le> s * s * s"
  by (intro mult_le_mono assms)

lemma gen_sizeOfEachCell_id:
  assumes "size' < 2 ^ 31"
  shows "gen_sizeOfEachCell size' gridSize = int (size' div gridSize)"
proof -
  have "size' div gridSize \<le> size'" by simp
  with assms have "size' div gridSize < 2 ^ 31" by linarith
  then have "int (size' div gridSize) < int (2 ^ 31)" by (simp only: of_nat_less_iff)
  then show ?thesis
    unfolding gen_sizeOfEachCell_def by (intro static_cast_int_id) simp_all
qed

lemma cell_edge_pos:
  assumes "valid_input size' gridSize"
  shows "1 \<le> size' div gridSize"
  using assms by (simp add: valid_input_def div_greater_zero_iff Suc_le_eq)

lemma generateFeaturePoints_eq:
  assumes "valid_input size' gridSize" "representable size'"
    and "alloc (size' * size' * size') 12"
  shows "generateFeaturePoints alloc rnd size' gridSize =
     Inr (map (cell_point rnd (int (size' div gridSize)) gridSize)
            [0..<gridSize * gridSize * gridSize])"
proof -
  from assms(1) have g: "gridSize \<noteq> 0" "gridSize \<le> size'" by (simp_all add: valid_input_def)
  from representable_size [OF assms(2)] have s: "size' < 2 ^ 31" by simp
  have c: "gen_sizeOfEachCell size' gridSize = int (size' div gridSize)"
    by (rule gen_sizeOfEachCell_id [OF s])
  have cap: "size_t (size' * size' * size') = size' * size' * size'"
    using assms(2) by (intro size_t_id) (simp add: representable_def)
  have "generateFeaturePoints alloc rnd size' gridSize =
     Inr (map (cell_point rnd (gen_sizeOfEachCell size' gridSize) gridSize)
            [0..<gridSize * gridSize * gridSize])"
  proof (rule generateFeaturePoints_closed_form [OF g(1)])
    show "1 \<le> gen_sizeOfEachCell size' gridSize"
      using cell_edge_pos [OF assms(1)] by (simp add: c)
    show "alloc (size_t (size' * size' * size')) 12" using assms(3) by (simp only: cap)
    show "n < size_t (size' * size' * size') \<or> alloc (Suc n) 12"
      if "n < gridSize * gridSize * gridSize" for n
      using that cube_mono [OF g(2)] by (simp add: cap)
  qed
  then show ?thesis by (simp only: c)
qed

section \<open>The feature points\<close>

lemma grid_in_volume: "int gridSize * int (size' div gridSize) \<le> int size'"
proof -
  have "gridSize * (size' div gridSize) \<le> size'" by simp
  then have "int (gridSize * (size' div gridSize)) \<le> int size'" by (simp only: of_nat_le_iff)
  then show ?thesis by simp
qed

lemma cell_of_index:
  fixes n g :: nat
  assumes "n < g * g * g"
  shows "n div (g * g) < g" and "(n div g) mod g < g" and "n mod g < g"
proof -
  from assms have g: "0 < g" by (cases g) simp_all
  from assms show "n div (g * g) < g"
    by (simp add: less_mult_imp_div_less mult.commute mult.left_commute)
  from g show "(n div g) mod g < g" and "n mod g < g" by simp_all
qed

lemma coordinate_in_cell:
  assumes "0 \<le> r" "r \<le> c - 1" "i < g" "int g * c < 2 ^ 31"
  shows "cell_coordinate c i r = int i * c + r"
    and "int i * c \<le> int i * c + r" and "int i * c + r \<le> (int i + 1) * c - 1"
    and "int i * c + r < int g * c"
proof -
  from assms(1,2) have c: "0 \<le> c" by simp
  from assms(3) have "int i + 1 \<le> int g" by simp
  then have "(int i + 1) * c \<le> int g * c" using c by (rule mult_right_mono)
  moreover have "int i * c + r \<le> (int i + 1) * c - 1" using assms(2) by (simp add: algebra_simps)
  ultimately show "int i * c + r < int g * c" and "int i * c + r \<le> (int i + 1) * c - 1"
    by linarith+
  with assms(4) have "int i * c + r < 2 ^ 31" by linarith
  with c assms(1) show "cell_coordinate c i r = int i * c + r" by (intro cell_coordinate_id)
  show "int i * c \<le> int i * c + r" using assms(1) by simp
qed

lemma cell_point_plain:
  assumes "uniform_int_distribution 0 (c - 1) rnd" "int g * c < 2 ^ 31" "n < g * g * g"
  shows "cell_point rnd c g n =
     \<lparr>vx = int (n div (g * g)) * c + rnd (3 * n),
       vy = int ((n div g) mod g) * c + rnd (3 * n + 1),
       vz = int (n mod g) * c + rnd (3 * n + 2)\<rparr>"
proof -
  have r: "0 \<le> rnd m" "rnd m \<le> c - 1" for m
    using assms(1) by (simp_all add: uniform_int_distribution_def)
  note i = cell_of_index [OF assms(3)]
  show ?thesis
    unfolding cell_point_def
    by (simp only: coordinate_in_cell(1) [OF r i(1) assms(2)]
        coordinate_in_cell(1) [OF r i(2) assms(2)] coordinate_in_cell(1) [OF r i(3) assms(2)])
qed

lemma cell_point_bounds:
  assumes "uniform_int_distribution 0 (c - 1) rnd" "int g * c < 2 ^ 31" "n < g * g * g"
  shows "int (n div (g * g)) * c \<le> vx (cell_point rnd c g n)
       \<and> vx (cell_point rnd c g n) \<le> (int (n div (g * g)) + 1) * c - 1
       \<and> int ((n div g) mod g) * c \<le> vy (cell_point rnd c g n)
       \<and> vy (cell_point rnd c g n) \<le> (int ((n div g) mod g) + 1) * c - 1
       \<and> int (n mod g) * c \<le> vz (cell_point rnd c g n)
       \<and> vz (cell_point rnd c g n) \<le> (int (n mod g) + 1) * c - 1"
proof -
  have r: "0 \<le> rnd m" "rnd m \<le> c - 1" for m
    using assms(1) by (simp_all add: uniform_int_distribution_def)
  note i = cell_of_index [OF assms(3)]
  show ?thesis
    unfolding cell_point_plain [OF assms]
    using coordinate_in_cell(2,3) [OF r i(1) assms(2)] coordinate_in_cell(2,3) [OF r i(2) assms(2)]
      coordinate_in_cell(2,3) [OF r i(3) assms(2)]
    by simp
qed

lemma cell_point_in_grid:
  assumes "uniform_int_distribution 0 (c - 1) rnd" "int g * c < 2 ^ 31" "n < g * g * g"
  shows "0 \<le> vx (cell_point rnd c g n) \<and> vx (cell_point rnd c g n) < int g * c
       \<and> 0 \<le> vy (cell_point rnd c g n) \<and> vy (cell_point rnd c g n) < int g * c
       \<and> 0 \<le> vz (cell_point rnd c g n) \<and> vz (cell_point rnd c g n) < int g * c"
proof -
  have r: "0 \<le> rnd m" "rnd m \<le> c - 1" for m
    using assms(1) by (simp_all add: uniform_int_distribution_def)
  from r [of 0] have c: "0 \<le> c" by simp
  have lo: "0 \<le> int a * c + rnd m" for a m using c r(1) [of m] by simp
  note i = cell_of_index [OF assms(3)]
  show ?thesis
    unfolding cell_point_plain [OF assms]
    using coordinate_in_cell(4) [OF r i(1) assms(2)] coordinate_in_cell(4) [OF r i(2) assms(2)]
      coordinate_in_cell(4) [OF r i(3) assms(2)] lo
    by simp
qed

lemma toLinearIndex_encode_nat:
  fixes n s :: nat
  shows "n mod s + (n div s) mod s * s + n div (s * s) * s * s = n"
proof -
  have a: "(n div s) mod s + (n div s) div s * s = n div s" by simp
  have b: "n mod s + (n div s) * s = n" by simp
  have "n mod s + (n div s) mod s * s + (n div s) div s * s * s
      = n mod s + ((n div s) mod s + (n div s) div s * s) * s"
    by (simp only: add_mult_distrib add.assoc)
  also have "\<dots> = n" by (simp only: a b)
  finally show ?thesis by (simp only: div_mult2_eq)
qed


text \<open>The facts about an input that the two functions can process.\<close>

lemma no_wrap_around:
  assumes "valid_input size' gridSize" "representable size'"
  shows "size' < 2 ^ 22"
    and "gen_sizeOfEachCell size' gridSize = int (size' div gridSize)"
    and "1 \<le> gen_sizeOfEachCell size' gridSize"
    and "int gridSize * gen_sizeOfEachCell size' gridSize \<le> int size'"
    and "int gridSize * gen_sizeOfEachCell size' gridSize < 2 ^ 31"
    and "size_t (size' * size' * size') = size' * size' * size'"
proof -
  show s: "size' < 2 ^ 22" by (rule representable_size [OF assms(2)])
  then have "size' < 2 ^ 31" by simp
  then show c: "gen_sizeOfEachCell size' gridSize = int (size' div gridSize)"
    by (rule gen_sizeOfEachCell_id)
  show "1 \<le> gen_sizeOfEachCell size' gridSize"
    using cell_edge_pos [OF assms(1)] by (simp add: c)
  show le: "int gridSize * gen_sizeOfEachCell size' gridSize \<le> int size'"
    unfolding c by (rule grid_in_volume)
  from s have "int size' < 2 ^ 31" by simp
  with le show "int gridSize * gen_sizeOfEachCell size' gridSize < 2 ^ 31" by linarith
  show "size_t (size' * size' * size') = size' * size' * size'"
    using assms(2) by (intro size_t_id) (simp add: representable_def)
qed

lemma generateFeaturePoints_returns:
  assumes "valid_input size' gridSize" "representable size'"
    and "alloc (size' * size' * size') 12"
  shows "generateFeaturePoints alloc rnd size' gridSize =
     Inr (map (cell_point rnd (gen_sizeOfEachCell size' gridSize) gridSize)
            [0..<gridSize * gridSize * gridSize])"
  using generateFeaturePoints_eq [where alloc = alloc, OF assms] by (simp only: no_wrap_around(2) [OF assms(1,2)])


lemma featurePoints_in_volume:
  assumes "valid_input size' gridSize" "representable size'"
    and "alloc (size' * size' * size') 12"
    and "uniform_int_distribution 0 (gen_sizeOfEachCell size' gridSize - 1) rnd"
    and "generateFeaturePoints alloc rnd size' gridSize = Inr featurePoints"
    and "p \<in> set featurePoints"
  shows "0 \<le> vx p \<and> vx p < int gridSize * gen_sizeOfEachCell size' gridSize
       \<and> 0 \<le> vy p \<and> vy p < int gridSize * gen_sizeOfEachCell size' gridSize
       \<and> 0 \<le> vz p \<and> vz p < int gridSize * gen_sizeOfEachCell size' gridSize"
proof -
  let ?c = "gen_sizeOfEachCell size' gridSize"
  from assms(5,6) generateFeaturePoints_returns [where alloc = alloc and rnd = rnd, OF assms(1-3)]
  obtain n where n: "n < gridSize * gridSize * gridSize" and p: "p = cell_point rnd ?c gridSize n"
    by auto
  show ?thesis
    unfolding p by (rule cell_point_in_grid [OF assms(4) no_wrap_around(5) [OF assms(1,2)] n])
qed

section \<open>The linear index and the evaluator's loops\<close>

lemma toLinearIndex_bound:
  fixes x y z s :: nat
  assumes "x < s" "y < s" "z < s"
  shows "x + y * s + z * s * s < s * s * s"
proof -
  have "x + y * s + z * s * s < s + y * s + z * s * s" using assms by simp
  also have "\<dots> = (Suc y + z * s) * s" by (simp add: algebra_simps)
  also have "\<dots> \<le> (s + z * s) * s" using assms by (intro mult_le_mono1) simp
  also have "\<dots> = Suc z * s * s" by (simp add: algebra_simps)
  also have "\<dots> \<le> s * s * s" using assms by (intro mult_le_mono1) simp
  finally show ?thesis .
qed

lemma toLinearIndex_plain:
  assumes "representable s" "x < s" "y < s" "z < s"
  shows "toLinearIndex s x y z = x + y * s + z * s * s"
proof -
  from toLinearIndex_bound [OF assms(2-4)] assms(1) have "x + y * s + z * s * s < 2 ^ 64"
    unfolding representable_def by linarith
  then show ?thesis unfolding toLinearIndex_def by (rule size_t_id)
qed

lemma toLinearIndex_less:
  assumes "representable s" "x < s" "y < s" "z < s"
  shows "toLinearIndex s x y z < s * s * s"
  unfolding toLinearIndex_plain [OF assms] by (rule toLinearIndex_bound [OF assms(2-4)])

lemma index_decode:
  fixes x y z s :: nat
  assumes "x < s" "y < s"
  shows "(x + y * s + z * s * s) mod s = x"
    and "((x + y * s + z * s * s) div s) mod s = y"
    and "(x + y * s + z * s * s) div (s * s) = z"
proof -
  have e: "x + y * s + z * s * s = x + (y + z * s) * s"
    by (simp add: algebra_simps)
  show "(x + y * s + z * s * s) mod s = x" using assms by (simp add: e)
  have d: "(x + y * s + z * s * s) div s = y + z * s" using assms by (simp add: e)
  show "((x + y * s + z * s * s) div s) mod s = y" using assms by (simp add: d)
  have "(x + y * s + z * s * s) div (s * s) = ((x + y * s + z * s * s) div s) div s"
    by (simp add: div_mult2_eq)
  then show "(x + y * s + z * s * s) div (s * s) = z" using assms by (simp add: d)
qed

lemma toLinearIndex_inj:
  assumes "representable s" "x < s" "y < s" "z < s" "x' < s" "y' < s" "z' < s"
    and "toLinearIndex s x y z = toLinearIndex s x' y' z'"
  shows "x = x' \<and> y = y' \<and> z = z'"
proof -
  from assms(8) have "x + y * s + z * s * s = x' + y' * s + z' * s * s"
    by (simp only: toLinearIndex_plain [OF assms(1-4)] toLinearIndex_plain [OF assms(1,5-7)])
  with index_decode [OF assms(2,3), of z] index_decode [OF assms(5,6), of z']
  show ?thesis by simp
qed

lemma toLinearIndex_encode:
  assumes "representable s" "n < s * s * s"
  shows "toLinearIndex s (n mod s) ((n div s) mod s) (n div (s * s)) = n"
  unfolding toLinearIndex_plain [OF assms(1) cell_of_index(3,2,1) [OF assms(2)]]
  by (rule toLinearIndex_encode_nat)

lemma written_store:
  assumes "written s f D r" "representable s" "x < s" "y < s" "z < s"
    and "D \<subseteq> {..<s} \<times> {..<s} \<times> {..<s}"
  shows "written s f (insert (x, y, z) D) (store (toLinearIndex s x y z) (f x y z) r)"
proof -
  from assms(1) obtain xs where xs: "r = Inr xs" "length xs = s * s * s"
    and D: "\<And>a b c. (a, b, c) \<in> D \<Longrightarrow> xs ! toLinearIndex s a b c = f a b c"
    by (auto simp: written_def)
  have i: "toLinearIndex s x y z < length xs"
    using toLinearIndex_less [OF assms(2-5)] xs by simp
  have "xs[toLinearIndex s x y z := f x y z] ! toLinearIndex s a b c = f a b c"
    if "(a, b, c) \<in> insert (x, y, z) D" for a b c
  proof (cases "toLinearIndex s a b c = toLinearIndex s x y z")
    case True
    from that assms(3-6) have "a < s" "b < s" "c < s" by auto
    from toLinearIndex_inj [OF assms(2) this assms(3-5) True] i True show ?thesis by simp
  next
    case False
    with that have "(a, b, c) \<in> D" by auto
    with False D show ?thesis by simp
  qed
  with xs i show ?thesis
    by (simp add: written_def store_def)
qed

lemma written_loop_z:
  assumes "written s f D r" "representable s" "x < s" "y < s" "k \<le> s"
    and "D \<subseteq> {..<s} \<times> {..<s} \<times> {..<s}"
  shows "written s f (D \<union> {x} \<times> {y} \<times> {..<k})
           (fold (\<lambda>z. store (toLinearIndex s x y z) (f x y z)) [0..<k] r)"
  using assms(5)
proof (induction k)
  case 0
  with assms(1) show ?case by simp
next
  case (Suc k)
  then have k: "k < s" and IH: "written s f (D \<union> {x} \<times> {y} \<times> {..<k})
           (fold (\<lambda>z. store (toLinearIndex s x y z) (f x y z)) [0..<k] r)" by simp_all
  have sub: "D \<union> {x} \<times> {y} \<times> {..<k} \<subseteq> {..<s} \<times> {..<s} \<times> {..<s}"
    using assms(3,4,6) k by auto
  have e: "D \<union> {x} \<times> {y} \<times> {..<Suc k} = insert (x, y, k) (D \<union> {x} \<times> {y} \<times> {..<k})"
    by (auto simp: less_Suc_eq)
  show ?case
    using written_store [OF IH assms(2,3,4) k sub] by (simp add: e)
qed

lemma written_loop_y:
  assumes "written s f D r" "representable s" "x < s" "k \<le> s"
    and "D \<subseteq> {..<s} \<times> {..<s} \<times> {..<s}"
  shows "written s f (D \<union> {x} \<times> {..<k} \<times> {..<s})
           (fold (\<lambda>y. fold (\<lambda>z. store (toLinearIndex s x y z) (f x y z)) [0..<s]) [0..<k] r)"
  using assms(4)
proof (induction k)
  case 0
  with assms(1) show ?case by simp
next
  case (Suc k)
  then have k: "k < s" and IH: "written s f (D \<union> {x} \<times> {..<k} \<times> {..<s})
           (fold (\<lambda>y. fold (\<lambda>z. store (toLinearIndex s x y z) (f x y z)) [0..<s]) [0..<k] r)"
    by simp_all
  have sub: "D \<union> {x} \<times> {..<k} \<times> {..<s} \<subseteq> {..<s} \<times> {..<s} \<times> {..<s}"
    using assms(3,5) k by auto
  have e: "D \<union> {x} \<times> {..<Suc k} \<times> {..<s}
      = D \<union> {x} \<times> {..<k} \<times> {..<s} \<union> {x} \<times> {k} \<times> {..<s}"
    by (auto simp: less_Suc_eq)
  show ?case
    using written_loop_z [OF IH assms(2,3) k order_refl sub] by (simp add: e)
qed

lemma written_loop_x:
  assumes "representable s" "k \<le> s"
  shows "written s f ({..<k} \<times> {..<s} \<times> {..<s})
           (fold (\<lambda>x. fold (\<lambda>y. fold (\<lambda>z. store (toLinearIndex s x y z) (f x y z))
                 [0..<s]) [0..<s])
              [0..<k] (Inr (replicate (s * s * s) 0)))"
  using assms(2)
proof (induction k)
  case 0
  have "written s f {} (Inr (replicate (s * s * s) 0))"
    unfolding written_def by (intro exI [of _ "replicate (s * s * s) 0"]) simp
  then show ?case by simp
next
  case (Suc k)
  then have k: "k < s" and IH: "written s f ({..<k} \<times> {..<s} \<times> {..<s})
           (fold (\<lambda>x. fold (\<lambda>y. fold (\<lambda>z. store (toLinearIndex s x y z) (f x y z))
                 [0..<s]) [0..<s])
              [0..<k] (Inr (replicate (s * s * s) 0)))"
    by simp_all
  have sub: "{..<k} \<times> {..<s} \<times> {..<s} \<subseteq> {..<s} \<times> {..<s} \<times> {..<s}"
    using k by auto
  have e: "{..<Suc k} \<times> {..<s} \<times> {..<s}
      = {..<k} \<times> {..<s} \<times> {..<s} \<union> {k} \<times> {..<s} \<times> {..<s}"
    by (auto simp: less_Suc_eq)
  show ?case
    using written_loop_y [OF IH assms(1) k order_refl sub] by (simp add: e)
qed

text \<open>A failed write is never repaired: the loops return an array only if every index
  they computed was inside it.\<close>

lemma store_Inr_iff:
  "store i v r = Inr ys \<longleftrightarrow> (\<exists>xs. r = Inr xs \<and> i < length xs \<and> ys = xs[i := v])"
proof (cases r)
  case (Inl e)
  then show ?thesis by (simp add: store_def)
next
  case (Inr xs)
  show ?thesis
  proof (cases "i < length xs")
    case True
    with Inr show ?thesis by (auto simp: store_def)
  next
    case False
    with Inr show ?thesis by (simp add: store_def)
  qed
qed

lemma stores_z_Inr:
  assumes "fold (\<lambda>z. store (ix z) (f z)) [0..<k] r = Inr ys"
  shows "\<exists>xs. r = Inr xs \<and> length xs = length ys \<and> (\<forall>z<k. ix z < length ys)"
  using assms
proof (induction k arbitrary: ys)
  case 0
  then show ?case by simp
next
  case (Suc k)
  then have st: "store (ix k) (f k) (fold (\<lambda>z. store (ix z) (f z)) [0..<k] r) = Inr ys"
    by simp
  then obtain xs' where xs': "fold (\<lambda>z. store (ix z) (f z)) [0..<k] r = Inr xs'"
    "ix k < length xs'" "ys = xs'[ix k := f k]"
    unfolding store_Inr_iff by blast
  from xs'(3) have len: "length xs' = length ys" by simp
  from Suc.IH [OF xs'(1)] obtain xs where
    xs: "r = Inr xs" "length xs = length xs'" "\<forall>z<k. ix z < length xs'" by blast
  have "\<forall>z<Suc k. ix z < length ys"
    using xs(3) xs'(2) len by (simp add: less_Suc_eq)
  with xs(1,2) len show ?case by simp
qed

lemma stores_y_Inr:
  assumes "fold (\<lambda>y. fold (\<lambda>z. store (ix y z) (f y z)) [0..<s]) [0..<k] r = Inr ys"
  shows "\<exists>xs. r = Inr xs \<and> length xs = length ys \<and> (\<forall>y<k. \<forall>z<s. ix y z < length ys)"
  using assms
proof (induction k arbitrary: ys)
  case 0
  then show ?case by simp
next
  case (Suc k)
  then have "fold (\<lambda>z. store (ix k z) (f k z)) [0..<s]
      (fold (\<lambda>y. fold (\<lambda>z. store (ix y z) (f y z)) [0..<s]) [0..<k] r) = Inr ys" by simp
  from stores_z_Inr [OF this] obtain xs' where
    xs': "fold (\<lambda>y. fold (\<lambda>z. store (ix y z) (f y z)) [0..<s]) [0..<k] r = Inr xs'"
    "length xs' = length ys" "\<forall>z<s. ix k z < length ys" by blast
  from Suc.IH [OF xs'(1)] obtain xs where
    xs: "r = Inr xs" "length xs = length xs'" "\<forall>y<k. \<forall>z<s. ix y z < length xs'" by blast
  have "\<forall>y<Suc k. \<forall>z<s. ix y z < length ys"
    using xs(3) xs'(2,3) by (simp add: less_Suc_eq)
  with xs(1,2) xs'(2) show ?case by simp
qed

lemma stores_x_Inr:
  assumes "fold (\<lambda>x. fold (\<lambda>y. fold (\<lambda>z. store (ix x y z) (f x y z)) [0..<s]) [0..<s]) [0..<k] r
    = Inr ys"
  shows "\<exists>xs. r = Inr xs \<and> length xs = length ys \<and> (\<forall>x<k. \<forall>y<s. \<forall>z<s. ix x y z < length ys)"
  using assms
proof (induction k arbitrary: ys)
  case 0
  then show ?case by simp
next
  case (Suc k)
  then have "fold (\<lambda>y. fold (\<lambda>z. store (ix k y z) (f k y z)) [0..<s]) [0..<s]
      (fold (\<lambda>x. fold (\<lambda>y. fold (\<lambda>z. store (ix x y z) (f x y z)) [0..<s]) [0..<s]) [0..<k] r)
      = Inr ys" by simp
  from stores_y_Inr [OF this] obtain xs' where
    xs': "fold (\<lambda>x. fold (\<lambda>y. fold (\<lambda>z. store (ix x y z) (f x y z)) [0..<s]) [0..<s]) [0..<k] r
      = Inr xs'"
    "length xs' = length ys" "\<forall>y<s. \<forall>z<s. ix k y z < length ys" by blast
  from Suc.IH [OF xs'(1)] obtain xs where
    xs: "r = Inr xs" "length xs = length xs'"
    "\<forall>x<k. \<forall>y<s. \<forall>z<s. ix x y z < length xs'" by blast
  have "\<forall>x<Suc k. \<forall>y<s. \<forall>z<s. ix x y z < length ys"
    using xs(3) xs'(2,3) by (simp add: less_Suc_eq)
  with xs(1,2) xs'(2) show ?case by simp
qed

lemma indices_fit_representable:
  assumes "\<forall>x<s. \<forall>y<s. \<forall>z<s. toLinearIndex s x y z < size_t (s * s * s)"
  shows "representable s"
proof (rule ccontr)
  assume "\<not> representable s"
  then have big: "2 ^ 64 \<le> s * s * s" by (simp add: representable_def)
  define n where "n = size_t (s * s * s)"
  have n64: "n < 2 ^ 64" by (simp add: n_def size_t_def)
  with big have n: "n < s * s * s" by linarith
  note c = cell_of_index [OF n]
  have "toLinearIndex s (n mod s) ((n div s) mod s) (n div (s * s)) = size_t n"
    unfolding toLinearIndex_def by (simp only: toLinearIndex_encode_nat)
  also have "\<dots> = n" using n64 by (rule size_t_id)
  finally have "toLinearIndex s (n mod s) ((n div s) mod s) (n div (s * s)) = n" .
  moreover from assms c have
    "toLinearIndex s (n mod s) ((n div s) mod s) (n div (s * s)) < n"
    unfolding n_def by blast
  ultimately show False by simp
qed

section \<open>When the two functions return\<close>

lemma generateFeaturePoints_Inr_D:
  assumes "generateFeaturePoints alloc rnd size' gridSize = Inr featurePoints"
  shows "gridSize \<noteq> 0" and "1 \<le> gen_sizeOfEachCell size' gridSize"
    and "alloc (size_t (size' * size' * size')) 12"
proof -
  show g: "gridSize \<noteq> 0"
  proof
    assume "gridSize = 0"
    with assms show False by (simp add: generateFeaturePoints_def)
  qed
  show c: "1 \<le> gen_sizeOfEachCell size' gridSize"
  proof (rule ccontr)
    assume "\<not> 1 \<le> gen_sizeOfEachCell size' gridSize"
    then have "gen_sizeOfEachCell size' gridSize - 1 < 0" by simp
    with g assms show False by (simp add: generateFeaturePoints_def Let_def)
  qed
  show "alloc (size_t (size' * size' * size')) 12"
  proof (rule ccontr)
    assume "\<not> alloc (size_t (size' * size' * size')) 12"
    with g c assms show False by (simp add: generateFeaturePoints_def Let_def)
  qed
qed

lemma worleyNoise3D_Inr_D:
  assumes "worleyNoise3D rd alloc rnd size' gridSize = Inr resultNoise"
  shows "valid_input size' gridSize" and "representable size'"
    and "alloc (size' * size' * size') 4" and "alloc (size' * size' * size') 12"
    and "\<exists>featurePoints. generateFeaturePoints alloc rnd size' gridSize = Inr featurePoints"
    and "length resultNoise = size' * size' * size'"
proof -
  let ?n = "size_t (size' * size' * size')"
  have a4: "alloc ?n 4"
  proof (rule ccontr)
    assume "\<not> alloc ?n 4"
    with assms show False by (simp add: worleyNoise3D_def Let_def)
  qed
  have g: "gridSize \<noteq> 0"
  proof
    assume "gridSize = 0"
    with a4 assms show False by (simp add: worleyNoise3D_def Let_def)
  qed
  obtain featurePoints where
    fp: "generateFeaturePoints alloc rnd size' gridSize = Inr featurePoints"
  proof (cases "generateFeaturePoints alloc rnd size' gridSize")
    case (Inl e)
    with a4 g assms show ?thesis by (simp add: worleyNoise3D_def Let_def)
  next
    case (Inr featurePoints)
    then show ?thesis by (rule that)
  qed
  then show "\<exists>featurePoints. generateFeaturePoints alloc rnd size' gridSize = Inr featurePoints"
    by blast
  from a4 g fp assms have loops:
    "fold (\<lambda>x. fold (\<lambda>y. fold (\<lambda>z. store (toLinearIndex size' x y z)
         (noiseValue rd featurePoints (maxCellDistance rd size' gridSize) x y z))
       [0..<size']) [0..<size']) [0..<size'] (Inr (replicate ?n 0)) = Inr resultNoise"
    by (simp add: worleyNoise3D_def Let_def)
  from stores_x_Inr [OF loops] have len: "length resultNoise = ?n"
    and fit: "\<forall>x<size'. \<forall>y<size'. \<forall>z<size'. toLinearIndex size' x y z < length resultNoise"
    by auto
  from fit show rep: "representable size'"
    unfolding len by (rule indices_fit_representable)
  then have n: "?n = size' * size' * size'"
    by (intro size_t_id) (simp add: representable_def)
  from a4 show "alloc (size' * size' * size') 4" by (simp only: n)
  from generateFeaturePoints_Inr_D(3) [OF fp] show "alloc (size' * size' * size') 12"
    by (simp only: n)
  from len show "length resultNoise = size' * size' * size'" by (simp only: n)
  from representable_size [OF rep] have "size' < 2 ^ 31" by simp
  from generateFeaturePoints_Inr_D(2) [OF fp] have "1 \<le> size' div gridSize"
    unfolding gen_sizeOfEachCell_id [OF \<open>size' < 2 ^ 31\<close>] by simp
  then have "gridSize \<le> size'"
    by (metis div_less not_less not_one_le_zero)
  with g show "valid_input size' gridSize" by (simp add: valid_input_def)
qed

lemma worleyNoise3D_values:
  assumes "valid_input size' gridSize" "representable size'"
    and "alloc (size' * size' * size') 4"
    and "generateFeaturePoints alloc rnd size' gridSize = Inr featurePoints"
  shows "\<exists>resultNoise. worleyNoise3D rd alloc rnd size' gridSize = Inr resultNoise \<and>
     length resultNoise = size' * size' * size' \<and>
     (\<forall>x y z. x < size' \<longrightarrow> y < size' \<longrightarrow> z < size' \<longrightarrow>
        resultNoise ! toLinearIndex size' x y z =
          noiseValue rd featurePoints (maxCellDistance rd size' gridSize) x y z)"
proof -
  from assms(1) have g: "gridSize \<noteq> 0" by (simp add: valid_input_def)
  have n: "size_t (size' * size' * size') = size' * size' * size'"
    using assms(2) by (intro size_t_id) (simp add: representable_def)
  from written_loop_x [OF assms(2) order_refl,
      of "noiseValue rd featurePoints (maxCellDistance rd size' gridSize)"]
  show ?thesis
    unfolding written_def worleyNoise3D_def using g assms(3,4) by (auto simp: n Let_def)
qed

lemma worleyNoise3D_result:
  assumes "worleyNoise3D rd alloc rnd size' gridSize = Inr resultNoise"
    and "generateFeaturePoints alloc rnd size' gridSize = Inr featurePoints"
    and "x < size'" "y < size'" "z < size'"
  shows "resultNoise ! toLinearIndex size' x y z =
     noiseValue rd featurePoints (maxCellDistance rd size' gridSize) x y z"
  using worleyNoise3D_values [where alloc = alloc and rd = rd,
      OF worleyNoise3D_Inr_D(1,2,3) [OF assms(1)] assms(2)] assms(1,3-5)
  by auto

lemma worleyNoise3D_returns:
  assumes "valid_input size' gridSize" "representable size'"
    and "alloc (size' * size' * size') 4" "alloc (size' * size' * size') 12"
  shows "\<exists>featurePoints resultNoise.
     generateFeaturePoints alloc rnd size' gridSize = Inr featurePoints \<and>
     worleyNoise3D rd alloc rnd size' gridSize = Inr resultNoise \<and>
     length featurePoints = gridSize * gridSize * gridSize \<and>
     length resultNoise = size' * size' * size'"
proof -
  let ?fp = "map (cell_point rnd (gen_sizeOfEachCell size' gridSize) gridSize)
            [0..<gridSize * gridSize * gridSize]"
  have fp: "generateFeaturePoints alloc rnd size' gridSize = Inr ?fp"
    by (rule generateFeaturePoints_returns [where alloc = alloc, OF assms(1,2,4)])
  from worleyNoise3D_values [where alloc = alloc and rd = rd, OF assms(1-3) fp] fp
  show ?thesis by auto
qed

section \<open>The scan for the nearest feature point\<close>

lemma FLT_MAX_pos: "0 < FLT_MAX"
  by (simp add: FLT_MAX_def)

lemma distance_nonneg: "rounding rd \<Longrightarrow> 0 \<le> distance rd a b"
  by (simp add: distance_def Let_def rd_nonneg)

lemma distance_idem: "rounding rd \<Longrightarrow> rd (distance rd a b) = distance rd a b"
  by (simp add: distance_def Let_def rd_idem)

lemma fold_min_eq:
  "fold (\<lambda>point m. let d = D point in if d < m then d else m) ps (m0 :: real)
     = Min (insert m0 (D ` set ps))"
proof (induction ps arbitrary: m0)
  case Nil
  show ?case by simp
next
  case (Cons p ps)
  have "(if D p < m0 then D p else m0) = min (D p) m0" by (simp add: min_def)
  then have "fold (\<lambda>point m. let d = D point in if d < m then d else m) (p # ps) m0
      = Min (insert (min (D p) m0) (D ` set ps))"
    using Cons.IH [of "min (D p) m0"] by (simp add: Let_def)
  also have "\<dots> = Min (insert m0 (D ` set (p # ps)))"
  proof (cases "ps = []")
    case True
    then show ?thesis by (simp add: min.commute)
  next
    case False
    then show ?thesis
      by (simp add: Min_insert min.assoc min.left_commute min.commute)
  qed
  finally show ?case .
qed

lemma nearest_eq_Min:
  "nearest rd featurePoints voxel =
     Min (insert FLT_MAX ((\<lambda>p. distance rd (toVector3f rd p) voxel) ` set featurePoints))"
  unfolding nearest_def by (rule fold_min_eq)

lemma nearest_nonneg: "rounding rd \<Longrightarrow> 0 \<le> nearest rd featurePoints voxel"
  unfolding nearest_eq_Min using FLT_MAX_pos distance_nonneg by (auto simp: less_imp_le)

lemma nearest_of_closest:
  assumes "p \<in> set featurePoints"
    and "\<forall>q\<in>set featurePoints.
           distance rd (toVector3f rd p) voxel \<le> distance rd (toVector3f rd q) voxel"
  shows "nearest rd featurePoints voxel = min FLT_MAX (distance rd (toVector3f rd p) voxel)"
proof -
  let ?D = "(\<lambda>q. distance rd (toVector3f rd q) voxel) ` set featurePoints"
  have fin: "finite ?D" and ne: "?D \<noteq> {}" using assms(1) by auto
  have "Min ?D = distance rd (toVector3f rd p) voxel"
    using assms by (intro Min_eqI) auto
  then show ?thesis
    unfolding nearest_eq_Min by (simp only: Min_insert [OF fin ne])
qed

lemma nearest_is_Min:
  assumes "featurePoints \<noteq> []"
    and "\<And>p. p \<in> set featurePoints \<Longrightarrow> distance rd (toVector3f rd p) voxel < FLT_MAX"
  shows "nearest rd featurePoints voxel =
     Min ((\<lambda>p. distance rd (toVector3f rd p) voxel) ` set featurePoints)"
proof -
  let ?D = "(\<lambda>p. distance rd (toVector3f rd p) voxel) ` set featurePoints"
  have ne: "?D \<noteq> {}" and fin: "finite ?D" using assms(1) by simp_all
  from Min_in [OF fin ne] assms(2) have "Min ?D < FLT_MAX" by auto
  moreover have "Min (insert FLT_MAX ?D) = min FLT_MAX (Min ?D)"
    by (rule Min_insert [OF fin ne])
  ultimately show ?thesis
    unfolding nearest_eq_Min by (simp only: min_def) simp
qed

lemma mapValue_eq:
  assumes "rounding rd"
  shows "mapValue rd v 0 M 0 1 = rd (rd v / rd M)"
  by (simp add: mapValue_def rd_1 [OF assms] rd_idem [OF assms])

lemma noiseValue_eq:
  assumes "rounding rd"
  shows "noiseValue rd featurePoints M x y z =
     rd (1 - rd (rd (nearest rd featurePoints
                       \<lparr>vx = rd (real x), vy = rd (real y), vz = rd (real z)\<rparr>) / rd M))"
  by (simp add: noiseValue_def mapValue_eq [OF assms])

lemma maxCellDistance_idem: "rounding rd \<Longrightarrow> rd (maxCellDistance rd s g) = maxCellDistance rd s g"
  by (simp add: maxCellDistance_def rd_idem)

lemma maxCellDistance_nonneg: "rounding rd \<Longrightarrow> 0 \<le> maxCellDistance rd s g"
  by (simp add: maxCellDistance_def rd_nonneg)

lemma rd_ge_1: "rounding rd \<Longrightarrow> 1 \<le> x \<Longrightarrow> 1 \<le> rd x"
  using rd_mono [of rd 1 x] by (simp add: rd_1)

lemma maxCellDistance_ge_1:
  assumes "rounding rd" "valid_input s g"
  shows "1 \<le> maxCellDistance rd s g"
proof -
  let ?c = "worley_sizeOfEachCell rd s g"
  from cell_edge_pos [OF assms(2)] have "1 \<le> real (s div g)" by simp
  then have c: "1 \<le> ?c" unfolding worley_sizeOfEachCell_def by (rule rd_ge_1 [OF assms(1)])
  then have "1 * 1 \<le> ?c * ?c" by (intro mult_mono) simp_all
  then have "1 \<le> rd (?c * ?c)" by (intro rd_ge_1 [OF assms(1)]) simp
  then have "1 \<le> rd (rd (?c * ?c) * 3)" by (intro rd_ge_1 [OF assms(1)]) simp
  then have "1 \<le> sqrt (rd (rd (?c * ?c) * 3))" by simp
  then show ?thesis unfolding maxCellDistance_def by (rule rd_ge_1 [OF assms(1)])
qed

lemma square_mono_abs:
  fixes a b :: real
  assumes "\<bar>a\<bar> \<le> \<bar>b\<bar>"
  shows "a * a \<le> b * b"
proof -
  have "\<bar>a\<bar> * \<bar>a\<bar> \<le> \<bar>b\<bar> * \<bar>b\<bar>" using assms by (intro mult_mono) simp_all
  then show ?thesis by simp
qed

lemma distance_mono:
  assumes "rounding rd"
    and "\<bar>vx b - vx a\<bar> \<le> \<bar>vx b' - vx a'\<bar>"
    and "\<bar>vy b - vy a\<bar> \<le> \<bar>vy b' - vy a'\<bar>"
    and "\<bar>vz b - vz a\<bar> \<le> \<bar>vz b' - vz a'\<bar>"
  shows "distance rd a b \<le> distance rd a' b'"
proof -
  note m = rd_mono [OF assms(1)]
  have sq: "rd (rd s * rd s) \<le> rd (rd s' * rd s')" if "\<bar>s\<bar> \<le> \<bar>s'\<bar>" for s s'
    by (intro m square_mono_abs rd_abs_mono [OF assms(1) that])
  show ?thesis
    unfolding distance_def Let_def
    by (intro m real_sqrt_le_mono add_mono sq assms(2-4))
qed

section \<open>Claims about the feature points\<close>

lemma alternating_source: "uniform_int_distribution 0 1 (\<lambda>n. int (n mod 2))"
proof -
  have "n mod 2 \<le> Suc 0" for n :: nat by arith
  then show ?thesis by (simp add: uniform_int_distribution_def)
qed

lemma zero_source: "0 \<le> c - 1 \<Longrightarrow> uniform_int_distribution 0 (c - 1) (\<lambda>n. 0)"
  by (simp add: uniform_int_distribution_def)

lemma valid_input_4_2: "valid_input 4 2"
  by (simp add: valid_input_def)

lemma valid_input_5_2: "valid_input 5 2"
  by (simp add: valid_input_def)

lemma representable_4: "representable 4"
  by (simp add: representable_def)

lemma representable_5: "representable 5"
  by (simp add: representable_def)

lemma gen_sizeOfEachCell_4_2: "gen_sizeOfEachCell 4 2 = 2"
  by (simp add: gen_sizeOfEachCell_def static_cast_int_def)

lemma gen_sizeOfEachCell_5_2: "gen_sizeOfEachCell 5 2 = 2"
  by (simp add: gen_sizeOfEachCell_def static_cast_int_def)







section \<open>The noise volume\<close>



lemma valid_input_5_3: "valid_input 5 3"
  by (simp add: valid_input_def)

lemma float32_2: "float32 2 = 2"
  using float32_of_int [of 2] by simp

lemma float32_4: "float32 4 = 4"
  using float32_of_int [of 4] by simp

lemma float32_3: "float32 3 = 3"
  using float32_of_int [of 3] by simp

lemma float32_1: "float32 1 = 1"
  using float32_of_int [of 1] by simp

text \<open>
  Claim C3. Every array that \<open>worleyNoise3D\<close> returns has length exactly \<open>size ^ 3\<close>, and
  for every valid input (\<open>gridSize > 0\<close>, \<open>gridSize \<le> size\<close>) whose \<open>size * size * size\<close> is
  below \<open>2 ^ 64\<close> and whose two allocations are granted, \<open>worleyNoise3D\<close> returns an array.
\<close>

theorem worleyNoise3D_length:
  "(\<forall>resultNoise. worleyNoise3D rd alloc rnd size' gridSize = Inr resultNoise \<longrightarrow>
      length resultNoise = size' ^ 3) \<and>
   (valid_input size' gridSize \<longrightarrow> representable size' \<longrightarrow>
    alloc (size' * size' * size') 4 \<longrightarrow> alloc (size' * size' * size') 12 \<longrightarrow>
      (\<exists>resultNoise. worleyNoise3D rd alloc rnd size' gridSize = Inr resultNoise \<and>
         length resultNoise = size' ^ 3))"
proof (intro conjI allI impI)
  fix resultNoise
  assume "worleyNoise3D rd alloc rnd size' gridSize = Inr resultNoise"
  from worleyNoise3D_Inr_D(6) [OF this] show "length resultNoise = size' ^ 3"
    by (simp add: power3_eq_cube)
next
  assume "valid_input size' gridSize" "representable size'"
    "alloc (size' * size' * size') 4" "alloc (size' * size' * size') 12"
  from worleyNoise3D_returns [where alloc = alloc and rd = rd and rnd = rnd, OF this]
  show "\<exists>resultNoise. worleyNoise3D rd alloc rnd size' gridSize = Inr resultNoise \<and>
         length resultNoise = size' ^ 3"
    by (auto simp: power3_eq_cube)
qed

theorem worleyNoise3D_length_witness:
  "\<exists>resultNoise.
      worleyNoise3D float32 (\<lambda>n b. True) (\<lambda>n. int (n mod 2)) 4 2 = Inr resultNoise \<and>
      length resultNoise = 64"
  using worleyNoise3D_length [of float32 "\<lambda>n b. True" "\<lambda>n. int (n mod 2)" 4 2]
    valid_input_4_2 representable_4
  by simp



section \<open>The cell edge of the evaluator\<close>

lemma worley_sizeOfEachCell_eq:
  assumes "rounding rd" "representable size'"
  shows "worley_sizeOfEachCell rd size' gridSize = real (size' div gridSize)"
proof -
  have "size' div gridSize \<le> size'" by simp
  also have "size' \<le> 2 ^ 24" using representable_size [OF assms(2)] by simp
  finally have "size' div gridSize \<le> 2 ^ 24" .
  then show ?thesis
    unfolding worley_sizeOfEachCell_def by (rule rd_of_nat [OF assms(1)])
qed

lemma rd_upper:
  assumes "rounding rd" "0 \<le> x"
  shows "rd x \<le> x * (1 + 1 / 2 ^ 24)"
proof -
  from rd_error [OF assms(1), of x] assms(2) have "\<bar>rd x - x\<bar> \<le> x / 2 ^ 24" by simp
  then have "rd x \<le> x + x / 2 ^ 24" by linarith
  then show ?thesis by (simp add: algebra_simps)
qed

lemma rd_lower:
  assumes "rounding rd" "0 \<le> x"
  shows "x * (1 - 1 / 2 ^ 24) \<le> rd x"
proof -
  from rd_error [OF assms(1), of x] assms(2) have "\<bar>rd x - x\<bar> \<le> x / 2 ^ 24" by simp
  then have "x - x / 2 ^ 24 \<le> rd x" by linarith
  then show ?thesis by (simp add: algebra_simps)
qed

lemma maxCellDistance_bounds:
  fixes c :: real
  assumes "rounding rd" "0 \<le> c"
  defines "M \<equiv> rd (sqrt (rd (rd (c * c) * 3)))"
  shows "c * sqrt 3 * (1 - 1 / 2 ^ 24)\<^sup>2 \<le> M" and "M \<le> c * sqrt 3 * (1 + 1 / 2 ^ 24)\<^sup>2"
proof -
  define u :: real where "u = 1 + 1 / 2 ^ 24"
  define l :: real where "l = 1 - 1 / 2 ^ 24"
  have u: "0 < u" and l: "0 < l" by (simp_all add: u_def l_def)
  define A where "A = rd (c * c)"
  define B where "B = rd (A * 3)"
  have cc: "0 \<le> c * c" by simp
  have A0: "0 \<le> A" unfolding A_def by (rule rd_nonneg [OF assms(1) cc])
  then have A3: "0 \<le> A * 3" by simp
  have B0: "0 \<le> B" unfolding B_def by (rule rd_nonneg [OF assms(1) A3])
  have Au: "A \<le> c * c * u" unfolding A_def u_def by (rule rd_upper [OF assms(1) cc])
  have Al: "c * c * l \<le> A" unfolding A_def l_def by (rule rd_lower [OF assms(1) cc])
  have "B \<le> A * 3 * u" unfolding B_def u_def by (rule rd_upper [OF assms(1) A3])
  also have "\<dots> \<le> c * c * u * 3 * u" using Au u by simp
  also have "\<dots> = (c * sqrt 3 * u)\<^sup>2" by (simp add: power2_eq_square algebra_simps)
  finally have "sqrt B \<le> sqrt ((c * sqrt 3 * u)\<^sup>2)" by (rule real_sqrt_le_mono)
  then have sBu: "sqrt B \<le> c * sqrt 3 * u" using assms(2) u by simp
  have "(c * sqrt 3 * l)\<^sup>2 = c * c * l * 3 * l" by (simp add: power2_eq_square algebra_simps)
  also have "\<dots> \<le> A * 3 * l" using Al l by simp
  also have "\<dots> \<le> B" unfolding B_def l_def by (rule rd_lower [OF assms(1) A3])
  finally have "sqrt ((c * sqrt 3 * l)\<^sup>2) \<le> sqrt B" by (rule real_sqrt_le_mono)
  then have sBl: "c * sqrt 3 * l \<le> sqrt B" using assms(2) l by simp
  have s0: "0 \<le> sqrt B" using B0 by simp
  have M: "M = rd (sqrt B)" by (simp add: M_def B_def A_def)
  have "M \<le> sqrt B * u" unfolding M u_def by (rule rd_upper [OF assms(1) s0])
  also have "\<dots> \<le> c * sqrt 3 * u * u" using sBu u by simp
  finally show "M \<le> c * sqrt 3 * (1 + 1 / 2 ^ 24)\<^sup>2"
    by (simp add: u_def power2_eq_square algebra_simps)
  have "c * sqrt 3 * l * l \<le> sqrt B * l" using sBl l by simp
  also have "\<dots> \<le> M" unfolding M l_def by (rule rd_lower [OF assms(1) s0])
  finally show "c * sqrt 3 * (1 - 1 / 2 ^ 24)\<^sup>2 \<le> M"
    by (simp add: l_def power2_eq_square algebra_simps)
qed

lemma maxCellDistance_exact:
  "maxCellDistance (\<lambda>x. x) size' gridSize = real (size' div gridSize) * sqrt 3"
  by (simp add: maxCellDistance_def worley_sizeOfEachCell_def real_sqrt_mult)

lemma truncated_is_quotient_iff:
  fixes size' gridSize :: nat
  assumes "0 < gridSize"
  shows "real (size' div gridSize) = real size' / real gridSize \<longleftrightarrow> gridSize dvd size'"
proof
  assume "real (size' div gridSize) = real size' / real gridSize"
  then have "real (size' div gridSize * gridSize) = real size'"
    using assms by (simp add: field_simps)
  then have "size' div gridSize * gridSize = size'" by (simp only: of_nat_eq_iff)
  then show "gridSize dvd size'" by (metis dvd_triv_right)
next
  assume "gridSize dvd size'"
  then show "real (size' div gridSize) = real size' / real gridSize"
    by (simp add: real_of_nat_div)
qed

lemma worley_sizeOfEachCell_5_2: "worley_sizeOfEachCell float32 5 2 = 2"
  by (simp add: worley_sizeOfEachCell_def float32_2)

lemma maxCellDistance_5_2: "maxCellDistance float32 5 2 \<le> 4"
proof -
  have "sqrt 12 \<le> sqrt (4\<^sup>2)" by (intro real_sqrt_le_mono) simp
  then have "sqrt 12 \<le> 4" by simp
  from float32_mono [OF this] show ?thesis
    by (simp add: maxCellDistance_def worley_sizeOfEachCell_5_2 float32_4
        float32_of_int [of 12, simplified])
qed

lemma four_less_diagonal: "4 < 5 / 2 * sqrt 3"
proof -
  have "sqrt ((8 / 5)\<^sup>2) < sqrt 3" by (intro real_sqrt_less_mono) (simp add: power2_eq_square)
  then have "8 / 5 < sqrt 3" by simp
  then show ?thesis by simp
qed

text \<open>
  Claim C1 says that the cell edge of \<open>worleyNoise3D\<close> is the real quotient
  \<open>size / gridSize\<close>, that \<open>maxCellDistance\<close> is that quotient times \<open>sqrt 3\<close>, and that
  the edge differs from the generator's truncated one whenever \<open>gridSize\<close> does not divide
  \<open>size\<close>. The code divides two \<open>std::size_t\<close> values: at \<open>size = 5\<close>,
  \<open>gridSize = 2\<close> the edge is \<open>2\<close>, not \<open>5 / 2\<close>, it is the generator's edge, and
  \<open>maxCellDistance\<close> is at most \<open>4\<close>, less than \<open>5 / 2 * sqrt 3\<close>.
\<close>

theorem worley_cell_edge_is_real_quotient_counterexample:
  "valid_input 5 2 \<and> representable 5 \<and> \<not> 2 dvd (5 :: nat) \<and>
   worley_sizeOfEachCell float32 5 2 = 2 \<and>
   worley_sizeOfEachCell float32 5 2 \<noteq> 5 / 2 \<and>
   worley_sizeOfEachCell float32 5 2 = real_of_int (gen_sizeOfEachCell 5 2) \<and>
   maxCellDistance float32 5 2 < 5 / 2 * sqrt 3"
  using maxCellDistance_5_2 four_less_diagonal
  by (simp add: valid_input_5_2 representable_5 worley_sizeOfEachCell_5_2
      gen_sizeOfEachCell_5_2)

text \<open>
  Claim C1, as amended. For every valid input whose \<open>size * size * size\<close> is below
  \<open>2 ^ 64\<close>, the cell edge that \<open>worleyNoise3D\<close> normalises with is the truncated quotient
  \<open>size div gridSize\<close>, the same number as the generator's cell edge;
  \<open>maxCellDistance\<close> is the rounded square root of three times the square of that
  truncated quotient, each product rounded, which lies within two roundings of the truncated
  quotient times \<open>sqrt 3\<close>; and the edge is the real quotient \<open>size / gridSize\<close> exactly
  when \<open>gridSize\<close> divides \<open>size\<close>.
\<close>

theorem worley_cell_edge_truncated:
  assumes "rounding rd" and "valid_input size' gridSize" and "representable size'"
  shows "worley_sizeOfEachCell rd size' gridSize = real (size' div gridSize) \<and>
     worley_sizeOfEachCell rd size' gridSize = real_of_int (gen_sizeOfEachCell size' gridSize) \<and>
     maxCellDistance rd size' gridSize =
       rd (sqrt (rd (rd (real (size' div gridSize) * real (size' div gridSize)) * 3))) \<and>
     real (size' div gridSize) * sqrt 3 * (1 - 1 / 2 ^ 24)\<^sup>2
       \<le> maxCellDistance rd size' gridSize \<and>
     maxCellDistance rd size' gridSize
       \<le> real (size' div gridSize) * sqrt 3 * (1 + 1 / 2 ^ 24)\<^sup>2 \<and>
     (worley_sizeOfEachCell rd size' gridSize = real size' / real gridSize
        \<longleftrightarrow> gridSize dvd size')"
proof -
  have e: "worley_sizeOfEachCell rd size' gridSize = real (size' div gridSize)"
    by (rule worley_sizeOfEachCell_eq [OF assms(1,3)])
  have g: "real (size' div gridSize) = real_of_int (gen_sizeOfEachCell size' gridSize)"
    by (simp add: no_wrap_around(2) [OF assms(2,3)])
  have m: "maxCellDistance rd size' gridSize =
       rd (sqrt (rd (rd (real (size' div gridSize) * real (size' div gridSize)) * 3)))"
    by (simp add: maxCellDistance_def e)
  from assms(2) have "0 < gridSize" by (simp add: valid_input_def)
  note d = truncated_is_quotient_iff [OF this, of size']
  have c: "0 \<le> real (size' div gridSize)" by simp
  note b = maxCellDistance_bounds [OF assms(1) c]
  show ?thesis
    using b d unfolding m [symmetric] e g [symmetric] by blast
qed

theorem worley_cell_edge_truncated_witness:
  "\<not> 2 dvd (5 :: nat) \<and>
   worley_sizeOfEachCell float32 5 2 = 2 \<and>
   worley_sizeOfEachCell float32 5 2 = real_of_int (gen_sizeOfEachCell 5 2) \<and>
   maxCellDistance float32 5 2 = float32 (sqrt 12) \<and>
   worley_sizeOfEachCell float32 5 2 \<noteq> 5 / 2 \<and>
   worley_sizeOfEachCell float32 4 2 = 4 / 2"
  using worley_cell_edge_truncated [OF rounding_float32 valid_input_5_2 representable_5]
    worley_cell_edge_truncated [OF rounding_float32 valid_input_4_2 representable_4]
  by (simp add: float32_4 float32_of_int [of 12, simplified])

section \<open>The values of the noise volume\<close>

lemma rd_le:
  assumes "rounding rd" "0 \<le> x" "x \<le> b"
  shows "rd x \<le> 2 * b"
  using rd_le_double [OF assms(1,2)] assms(3) by linarith

lemma rd_square_le:
  assumes "rounding rd" "\<bar>s\<bar> \<le> 2 ^ 22"
  shows "0 \<le> rd (rd s * rd s)" and "rd (rd s * rd s) \<le> 2 ^ 47"
proof -
  have "\<bar>rd s\<bar> = rd \<bar>s\<bar>" by (simp add: rd_abs [OF assms(1)])
  also have "\<dots> \<le> 2 * 2 ^ 22" by (rule rd_le [OF assms(1) _ assms(2)]) simp
  finally have a: "\<bar>rd s\<bar> \<le> 2 ^ 23" by simp
  have "rd s * rd s = \<bar>rd s\<bar> * \<bar>rd s\<bar>" by simp
  also have "\<dots> \<le> 2 ^ 23 * 2 ^ 23" by (intro mult_mono a) simp_all
  finally have b: "rd s * rd s \<le> 2 ^ 46" by simp
  show "0 \<le> rd (rd s * rd s)" by (rule rd_nonneg [OF assms(1)]) simp
  have "rd (rd s * rd s) \<le> 2 * 2 ^ 46" by (rule rd_le [OF assms(1) _ b]) simp
  then show "rd (rd s * rd s) \<le> 2 ^ 47" by simp
qed

lemma distance_less_FLT_MAX:
  assumes "rounding rd"
    and "\<bar>vx b - vx a\<bar> \<le> 2 ^ 22" "\<bar>vy b - vy a\<bar> \<le> 2 ^ 22" "\<bar>vz b - vz a\<bar> \<le> 2 ^ 22"
  shows "distance rd a b < FLT_MAX"
proof -
  define X where "X = rd (rd (vx b - vx a) * rd (vx b - vx a))"
  define Y where "Y = rd (rd (vy b - vy a) * rd (vy b - vy a))"
  define Z where "Z = rd (rd (vz b - vz a) * rd (vz b - vz a))"
  note x = rd_square_le [OF assms(1,2), folded X_def]
  note y = rd_square_le [OF assms(1,3), folded Y_def]
  note z = rd_square_le [OF assms(1,4), folded Z_def]
  have xy0: "0 \<le> rd (X + Y)" using x(1) y(1) by (intro rd_nonneg [OF assms(1)]) simp
  have "rd (X + Y) \<le> 2 * 2 ^ 48" using x y by (intro rd_le [OF assms(1)]) simp_all
  then have xy: "rd (X + Y) \<le> 2 ^ 49" by simp
  have s0: "0 \<le> rd (X + Y) + Z" using xy0 z(1) by simp
  have "rd (rd (X + Y) + Z) \<le> 2 * 2 ^ 50" using xy z(2) s0 by (intro rd_le [OF assms(1)]) simp_all
  then have "rd (rd (X + Y) + Z) \<le> (2 ^ 26)\<^sup>2" by simp
  then have "sqrt (rd (rd (X + Y) + Z)) \<le> sqrt ((2 ^ 26)\<^sup>2)" by (rule real_sqrt_le_mono)
  then have "sqrt (rd (rd (X + Y) + Z)) \<le> 2 ^ 26" by (simp only: real_sqrt_abs) simp
  then have "rd (sqrt (rd (rd (X + Y) + Z))) \<le> 2 * 2 ^ 26"
    by (intro rd_le [OF assms(1)]) (simp_all add: rd_nonneg [OF assms(1) s0])
  moreover have "(2 :: real) * 2 ^ 26 < FLT_MAX" by (simp add: FLT_MAX_def)
  ultimately show ?thesis
    unfolding distance_def Let_def X_def Y_def Z_def by linarith
qed

lemma maxCellDistance_less_FLT_MAX:
  assumes "rounding rd" "representable size'"
  shows "maxCellDistance rd size' gridSize < FLT_MAX"
proof -
  have "size' div gridSize \<le> size'" by simp
  also have "size' \<le> 2 ^ 22" using representable_size [OF assms(2)] by simp
  finally have "real (size' div gridSize) \<le> real (2 ^ 22)" by (simp only: of_nat_le_iff)
  then have c: "real (size' div gridSize) \<le> 2 ^ 22" by simp
  have "sqrt 3 \<le> sqrt (2\<^sup>2)" by (intro real_sqrt_le_mono) simp
  then have s: "sqrt 3 \<le> 2" by simp
  have u: "(1 + 1 / 2 ^ 24 :: real)\<^sup>2 \<le> 4" by (simp add: power2_eq_square)
  have "maxCellDistance rd size' gridSize
      \<le> real (size' div gridSize) * sqrt 3 * (1 + 1 / 2 ^ 24)\<^sup>2"
    unfolding maxCellDistance_def worley_sizeOfEachCell_eq [OF assms]
    by (rule maxCellDistance_bounds(2) [OF assms(1)]) simp
  also have "\<dots> \<le> 2 ^ 22 * 2 * 4" by (intro mult_mono c s u) simp_all
  also have "\<dots> < FLT_MAX" by (simp add: FLT_MAX_def)
  finally show ?thesis .
qed

lemma voxel_exact:
  assumes "rounding rd" "x < 2 ^ 22"
  shows "rd (real x) = real x"
  using assms(2) by (intro rd_of_nat [OF assms(1)]) simp

lemma toVector3f_exact:
  assumes "rounding rd"
    and "0 \<le> vx p \<and> vx p < 2 ^ 22" "0 \<le> vy p \<and> vy p < 2 ^ 22" "0 \<le> vz p \<and> vz p < 2 ^ 22"
  shows "toVector3f rd p =
     \<lparr>vx = real_of_int (vx p), vy = real_of_int (vy p), vz = real_of_int (vz p)\<rparr>"
  using assms(2-4) unfolding toVector3f_def by (simp add: rd_of_int [OF assms(1)])

lemma difference_exact:
  assumes "rounding rd" "x < 2 ^ 22" "0 \<le> a \<and> a < 2 ^ 22"
  shows "rd (real x - real_of_int a) = real x - real_of_int a"
proof -
  have "real x - real_of_int a = real_of_int (int x - a)" by simp
  moreover have "int x < 2 ^ 22" using assms(2) by simp
  then have "\<bar>int x - a\<bar> \<le> 2 ^ 24" using assms(3) by (simp add: abs_le_iff)
  ultimately show ?thesis using rd_of_int [OF assms(1), of "int x - a"] by simp
qed

lemma distance_explicit:
  assumes "rounding rd"
    and "0 \<le> vx p \<and> vx p < 2 ^ 22" "0 \<le> vy p \<and> vy p < 2 ^ 22" "0 \<le> vz p \<and> vz p < 2 ^ 22"
    and "x < 2 ^ 22" "y < 2 ^ 22" "z < 2 ^ 22"
  shows "distance rd (toVector3f rd p) \<lparr>vx = real x, vy = real y, vz = real z\<rparr> =
     rd (sqrt (rd (rd (rd ((real x - real_of_int (vx p))\<^sup>2)
                         + rd ((real y - real_of_int (vy p))\<^sup>2))
                    + rd ((real z - real_of_int (vz p))\<^sup>2))))"
  unfolding toVector3f_exact [OF assms(1-4)] distance_def Let_def
  by (simp add: difference_exact [OF assms(1,5,2)] difference_exact [OF assms(1,6,3)]
      difference_exact [OF assms(1,7,4)] power2_eq_square)

lemma distance_in_volume_less_FLT_MAX:
  assumes "rounding rd"
    and "0 \<le> vx p \<and> vx p < 2 ^ 22" "0 \<le> vy p \<and> vy p < 2 ^ 22" "0 \<le> vz p \<and> vz p < 2 ^ 22"
    and "x < 2 ^ 22" "y < 2 ^ 22" "z < 2 ^ 22"
  shows "distance rd (toVector3f rd p) \<lparr>vx = real x, vy = real y, vz = real z\<rparr> < FLT_MAX"
proof -
  have b: "\<bar>real a - real_of_int c\<bar> \<le> 2 ^ 22" if "a < 2 ^ 22" "0 \<le> c \<and> c < 2 ^ 22" for a c
  proof -
    have "int a < 2 ^ 22" using that(1) by simp
    then have "\<bar>int a - c\<bar> \<le> 2 ^ 22" using that(2) by (simp add: abs_le_iff)
    then have "real_of_int \<bar>int a - c\<bar> \<le> real_of_int (2 ^ 22)" by (simp only: of_int_le_iff)
    then show ?thesis by simp
  qed
  show ?thesis
    unfolding toVector3f_exact [OF assms(1-4)]
    using b [OF assms(5,2)] b [OF assms(6,3)] b [OF assms(7,4)]
    by (intro distance_less_FLT_MAX [OF assms(1)]) simp_all
qed

lemma points_in_volume:
  assumes "valid_input size' gridSize" "representable size'"
    and "alloc (size' * size' * size') 12"
    and "uniform_int_distribution 0 (gen_sizeOfEachCell size' gridSize - 1) rnd"
    and "generateFeaturePoints alloc rnd size' gridSize = Inr featurePoints"
    and "p \<in> set featurePoints"
  shows "0 \<le> vx p \<and> vx p < 2 ^ 22" "0 \<le> vy p \<and> vy p < 2 ^ 22" "0 \<le> vz p \<and> vz p < 2 ^ 22"
proof -
  note w = no_wrap_around [OF assms(1,2)]
  from w(1) have "int size' < 2 ^ 22" by simp
  with featurePoints_in_volume [OF assms] w(4)
  show "0 \<le> vx p \<and> vx p < 2 ^ 22" "0 \<le> vy p \<and> vy p < 2 ^ 22" "0 \<le> vz p \<and> vz p < 2 ^ 22"
    by linarith+
qed

lemma featurePoints_nonempty:
  assumes "generateFeaturePoints alloc rnd size' gridSize = Inr featurePoints"
    and "valid_input size' gridSize" "representable size'"
  shows "featurePoints \<noteq> []"
proof -
  from assms(2) have g: "0 < gridSize" by (simp add: valid_input_def)
  from generateFeaturePoints_Inr_D(3) [OF assms(1)] no_wrap_around(6) [OF assms(2,3)]
  have "alloc (size' * size' * size') 12" by simp
  from generateFeaturePoints_returns [where alloc = alloc and rnd = rnd, OF assms(2,3) this] assms(1)
  have "length featurePoints = gridSize * gridSize * gridSize" by auto
  with g show ?thesis by auto
qed

text \<open>
  Claim C2. For every voxel \<open>(x, y, z)\<close> of \<open>[0, size)\<close> cubed, \<open>worleyNoise3D\<close> stores at
  the linear index \<open>x + y * size + z * size ^ 2\<close> the value
  \<open>1 - minDist / maxCellDistance\<close>, where \<open>minDist\<close> is the least Euclidean distance
  \<open>sqrt ((x - px) ^ 2 + (y - py) ^ 2 + (z - pz) ^ 2)\<close> from \<open>(x, y, z)\<close> to a point
  \<open>(px, py, pz)\<close> of the generated set: the scan misses no point, and its start value
  \<open>FLT_MAX\<close> is never the result. Every arithmetic operation of the formula is rounded by
  \<open>rd\<close>; the coordinate differences are exact. The statement is for valid inputs whose
  \<open>size * size * size\<close> is below \<open>2 ^ 64\<close> and whose allocations are granted.
\<close>

theorem worleyNoise3D_stores_nearest_distance:
  assumes "rounding rd" and "valid_input size' gridSize" and "representable size'"
    and "alloc (size' * size' * size') 4" and "alloc (size' * size' * size') 12"
    and "uniform_int_distribution 0 (gen_sizeOfEachCell size' gridSize - 1) rnd"
  shows "\<exists>featurePoints resultNoise.
     generateFeaturePoints alloc rnd size' gridSize = Inr featurePoints \<and>
     worleyNoise3D rd alloc rnd size' gridSize = Inr resultNoise \<and>
     featurePoints \<noteq> [] \<and>
     (\<forall>x<size'. \<forall>y<size'. \<forall>z<size'.
        let minDist = Min ((\<lambda>p.
              rd (sqrt (rd (rd (rd ((real x - real_of_int (vx p))\<^sup>2)
                                  + rd ((real y - real_of_int (vy p))\<^sup>2))
                             + rd ((real z - real_of_int (vz p))\<^sup>2)))))
              ` set featurePoints)
        in resultNoise ! (x + y * size' + z * size'\<^sup>2) =
             rd (1 - rd (minDist / maxCellDistance rd size' gridSize)))"
proof -
  let ?M = "maxCellDistance rd size' gridSize"
  from worleyNoise3D_returns [where alloc = alloc and rd = rd and rnd = rnd, OF assms(2-5)]
  obtain featurePoints resultNoise where
    fp: "generateFeaturePoints alloc rnd size' gridSize = Inr featurePoints"
    and r: "worleyNoise3D rd alloc rnd size' gridSize = Inr resultNoise"
    by blast
  note s = no_wrap_around(1) [OF assms(2,3)]
  have ne: "featurePoints \<noteq> []" by (rule featurePoints_nonempty [OF fp assms(2,3)])
  have "resultNoise ! (x + y * size' + z * size'\<^sup>2) =
      rd (1 - rd (Min ((\<lambda>p.
              rd (sqrt (rd (rd (rd ((real x - real_of_int (vx p))\<^sup>2)
                                  + rd ((real y - real_of_int (vy p))\<^sup>2))
                             + rd ((real z - real_of_int (vz p))\<^sup>2)))))
              ` set featurePoints) / ?M))"
    if "x < size'" "y < size'" "z < size'" for x y z
  proof -
    let ?v = "\<lparr>vx = real x, vy = real y, vz = real z\<rparr>"
    let ?E = "\<lambda>p. rd (sqrt (rd (rd (rd ((real x - real_of_int (vx p))\<^sup>2)
                                  + rd ((real y - real_of_int (vy p))\<^sup>2))
                             + rd ((real z - real_of_int (vz p))\<^sup>2))))"
    from that s have b: "x < 2 ^ 22" "y < 2 ^ 22" "z < 2 ^ 22" by simp_all
    note v = voxel_exact [OF assms(1) b(1)] voxel_exact [OF assms(1) b(2)]
      voxel_exact [OF assms(1) b(3)]
    have d: "distance rd (toVector3f rd p) ?v = ?E p" if "p \<in> set featurePoints" for p
      by (rule distance_explicit
          [OF assms(1) points_in_volume [OF assms(2,3,5,6) fp that] b])
    have l: "distance rd (toVector3f rd p) ?v < FLT_MAX" if "p \<in> set featurePoints" for p
      by (rule distance_in_volume_less_FLT_MAX
          [OF assms(1) points_in_volume [OF assms(2,3,5,6) fp that] b])
    have "nearest rd featurePoints ?v
        = Min ((\<lambda>p. distance rd (toVector3f rd p) ?v) ` set featurePoints)"
      by (rule nearest_is_Min [OF ne l])
    also have "(\<lambda>p. distance rd (toVector3f rd p) ?v) ` set featurePoints
        = ?E ` set featurePoints"
      by (rule image_cong [OF refl d])
    finally have n: "nearest rd featurePoints ?v = Min (?E ` set featurePoints)" .
    have "Min (?E ` set featurePoints) \<in> ?E ` set featurePoints"
      using ne by (intro Min_in) simp_all
    then have i: "rd (Min (?E ` set featurePoints)) = Min (?E ` set featurePoints)"
      by (auto simp: rd_idem [OF assms(1)])
    have "resultNoise ! toLinearIndex size' x y z = noiseValue rd featurePoints ?M x y z"
      by (rule worleyNoise3D_result [OF r fp that])
    then show ?thesis
      unfolding toLinearIndex_plain [OF assms(3) that] noiseValue_eq [OF assms(1)] v n i
        maxCellDistance_idem [OF assms(1)]
      by (simp add: power2_eq_square mult.assoc)
  qed
  with fp r ne show ?thesis unfolding Let_def by blast
qed

theorem worleyNoise3D_stores_nearest_distance_witness:
  "(\<exists>featurePoints resultNoise.
     generateFeaturePoints (\<lambda>n b. True) (\<lambda>n. int (n mod 2)) 4 2 = Inr featurePoints \<and>
     worleyNoise3D float32 (\<lambda>n b. True) (\<lambda>n. int (n mod 2)) 4 2 = Inr resultNoise \<and>
     resultNoise ! 57 =
       float32 (1 - float32 (Min ((\<lambda>p.
           float32 (sqrt (float32 (float32 (float32 ((1 - real_of_int (vx p))\<^sup>2)
                                     + float32 ((2 - real_of_int (vy p))\<^sup>2))
                            + float32 ((3 - real_of_int (vz p))\<^sup>2)))))
           ` set featurePoints) / maxCellDistance float32 4 2))) \<and>
   (\<exists>featurePoints resultNoise.
     generateFeaturePoints (\<lambda>n b. True) (\<lambda>n. int (n mod 2)) 4 2 = Inr featurePoints \<and>
     worleyNoise3D (\<lambda>x. x) (\<lambda>n b. True) (\<lambda>n. int (n mod 2)) 4 2 = Inr resultNoise \<and>
     resultNoise ! 57 =
       1 - Min ((\<lambda>p. sqrt ((1 - real_of_int (vx p))\<^sup>2 + (2 - real_of_int (vy p))\<^sup>2
                            + (3 - real_of_int (vz p))\<^sup>2)) ` set featurePoints)
           / (2 * sqrt 3))"
proof -
  have u: "uniform_int_distribution 0 (gen_sizeOfEachCell 4 2 - 1) (\<lambda>n. int (n mod 2))"
    using alternating_source by (simp add: gen_sizeOfEachCell_4_2)
  from worleyNoise3D_stores_nearest_distance [where alloc = "\<lambda>n b. True",
      OF rounding_float32 valid_input_4_2 representable_4 _ _ u]
  obtain featurePoints resultNoise where
    fp: "generateFeaturePoints (\<lambda>n b. True) (\<lambda>n. int (n mod 2)) 4 2 = Inr featurePoints"
    and r: "worleyNoise3D float32 (\<lambda>n b. True) (\<lambda>n. int (n mod 2)) 4 2 = Inr resultNoise"
    and val: "\<forall>x<4. \<forall>y<4. \<forall>z<4.
        let minDist = Min ((\<lambda>p.
              float32 (sqrt (float32 (float32 (float32 ((real x - real_of_int (vx p))\<^sup>2)
                                  + float32 ((real y - real_of_int (vy p))\<^sup>2))
                             + float32 ((real z - real_of_int (vz p))\<^sup>2)))))
              ` set featurePoints)
        in resultNoise ! (x + y * 4 + z * 4\<^sup>2) =
             float32 (1 - float32 (minDist / maxCellDistance float32 4 2))"
    by blast
  from val [rule_format, of 1 2 3] have
    "resultNoise ! 57 =
       float32 (1 - float32 (Min ((\<lambda>p.
           float32 (sqrt (float32 (float32 (float32 ((1 - real_of_int (vx p))\<^sup>2)
                                     + float32 ((2 - real_of_int (vy p))\<^sup>2))
                            + float32 ((3 - real_of_int (vz p))\<^sup>2)))))
           ` set featurePoints) / maxCellDistance float32 4 2))"
    by (simp add: Let_def)
  with fp r have float: "\<exists>featurePoints resultNoise.
     generateFeaturePoints (\<lambda>n b. True) (\<lambda>n. int (n mod 2)) 4 2 = Inr featurePoints \<and>
     worleyNoise3D float32 (\<lambda>n b. True) (\<lambda>n. int (n mod 2)) 4 2 = Inr resultNoise \<and>
     resultNoise ! 57 =
       float32 (1 - float32 (Min ((\<lambda>p.
           float32 (sqrt (float32 (float32 (float32 ((1 - real_of_int (vx p))\<^sup>2)
                                     + float32 ((2 - real_of_int (vy p))\<^sup>2))
                            + float32 ((3 - real_of_int (vz p))\<^sup>2)))))
           ` set featurePoints) / maxCellDistance float32 4 2))"
    by blast
  from worleyNoise3D_stores_nearest_distance [where alloc = "\<lambda>n b. True",
      OF rounding_exact valid_input_4_2 representable_4 _ _ u]
  obtain featurePoints' resultNoise' where
    fp': "generateFeaturePoints (\<lambda>n b. True) (\<lambda>n. int (n mod 2)) 4 2 = Inr featurePoints'"
    and r': "worleyNoise3D (\<lambda>x. x) (\<lambda>n b. True) (\<lambda>n. int (n mod 2)) 4 2 = Inr resultNoise'"
    and val': "\<forall>x<4. \<forall>y<4. \<forall>z<4.
        let minDist = Min ((\<lambda>p.
              sqrt ((real x - real_of_int (vx p))\<^sup>2 + (real y - real_of_int (vy p))\<^sup>2
                     + (real z - real_of_int (vz p))\<^sup>2)) ` set featurePoints')
        in resultNoise' ! (x + y * 4 + z * 4\<^sup>2) =
             1 - minDist / maxCellDistance (\<lambda>x. x) 4 2"
    by blast
  from val' [rule_format, of 1 2 3] have
    "resultNoise' ! 57 =
       1 - Min ((\<lambda>p. sqrt ((1 - real_of_int (vx p))\<^sup>2 + (2 - real_of_int (vy p))\<^sup>2
                            + (3 - real_of_int (vz p))\<^sup>2)) ` set featurePoints')
           / (2 * sqrt 3)"
    by (simp add: Let_def maxCellDistance_exact)
  with fp' r' float show ?thesis by blast
qed

lemma distance_same:
  assumes "rounding rd"
  shows "distance rd v v = 0"
  by (simp add: distance_def rd_0 [OF assms])

lemma upt_8: "[0..<8] = [0, 1, 2, 3, 4, 5, 6, 7]"
  by (simp add: upt_rec)

lemma featurePoints_4_2_alternating:
  "generateFeaturePoints (\<lambda>n b. True) (\<lambda>n. int (n mod 2)) 4 2 =
     Inr (map (cell_point (\<lambda>n. int (n mod 2)) 2 2) [0..<8])"
  using generateFeaturePoints_returns [where alloc = "\<lambda>n b. True"
      and rnd = "\<lambda>n. int (n mod 2)", OF valid_input_4_2 representable_4]
  by (simp add: gen_sizeOfEachCell_4_2)

lemma featurePoints_4_2_zero:
  "generateFeaturePoints (\<lambda>n b. True) (\<lambda>n. 0) 4 2 =
     Inr (map (cell_point (\<lambda>n. 0) 2 2) [0..<8])"
  using generateFeaturePoints_returns [where alloc = "\<lambda>n b. True"
      and rnd = "\<lambda>n. 0", OF valid_input_4_2 representable_4]
  by (simp add: gen_sizeOfEachCell_4_2)

lemma cell_coordinate_small:
  "cell_coordinate 2 0 0 = 0" "cell_coordinate 2 0 1 = 1"
  "cell_coordinate 2 (Suc 0) 0 = 2" "cell_coordinate 2 (Suc 0) 1 = 3"
  by (simp_all add: cell_coordinate_def int_to_size_t_def size_t_def static_cast_int_def)

text \<open>
  Claim C6. At a voxel whose integer coordinates are those of a generated feature point
  the output value is exactly 1, whatever the rounding. The statement is for valid inputs
  whose \<open>size * size * size\<close> is below \<open>2 ^ 64\<close> and whose allocations are granted.
\<close>

theorem worleyNoise3D_feature_point_is_one:
  assumes "rounding rd" and "valid_input size' gridSize" and "representable size'"
    and "alloc (size' * size' * size') 4" and "alloc (size' * size' * size') 12"
  shows "\<exists>featurePoints resultNoise.
     generateFeaturePoints alloc rnd size' gridSize = Inr featurePoints \<and>
     worleyNoise3D rd alloc rnd size' gridSize = Inr resultNoise \<and>
     (\<forall>x<size'. \<forall>y<size'. \<forall>z<size'.
        \<lparr>vx = int x, vy = int y, vz = int z\<rparr> \<in> set featurePoints
        \<longrightarrow> resultNoise ! (x + y * size' + z * size'\<^sup>2) = 1)"
proof -
  let ?M = "maxCellDistance rd size' gridSize"
  from worleyNoise3D_returns [where alloc = alloc and rd = rd and rnd = rnd, OF assms(2-5)]
  obtain featurePoints resultNoise where
    fp: "generateFeaturePoints alloc rnd size' gridSize = Inr featurePoints"
    and r: "worleyNoise3D rd alloc rnd size' gridSize = Inr resultNoise"
    by blast
  have "resultNoise ! (x + y * size' + z * size'\<^sup>2) = 1"
    if "x < size'" "y < size'" "z < size'"
      and p: "\<lparr>vx = int x, vy = int y, vz = int z\<rparr> \<in> set featurePoints" for x y z
  proof -
    let ?v = "\<lparr>vx = rd (real x), vy = rd (real y), vz = rd (real z)\<rparr>"
    let ?D = "insert FLT_MAX ((\<lambda>p. distance rd (toVector3f rd p) ?v) ` set featurePoints)"
    have "toVector3f rd \<lparr>vx = int x, vy = int y, vz = int z\<rparr> = ?v"
      by (simp add: toVector3f_def)
    then have "distance rd (toVector3f rd \<lparr>vx = int x, vy = int y, vz = int z\<rparr>) ?v = 0"
      by (simp only: distance_same [OF assms(1)])
    with p have "0 \<in> ?D" by force
    moreover have "\<forall>d\<in>?D. 0 \<le> d" using FLT_MAX_pos distance_nonneg [OF assms(1)] by auto
    ultimately have "Min ?D = 0" by (intro Min_eqI) auto
    then have n: "nearest rd featurePoints ?v = 0" by (simp only: nearest_eq_Min)
    have "resultNoise ! toLinearIndex size' x y z = noiseValue rd featurePoints ?M x y z"
      by (rule worleyNoise3D_result [OF r fp that(1-3)])
    then show ?thesis
      unfolding toLinearIndex_plain [OF assms(3) that(1-3)] noiseValue_eq [OF assms(1)] n
      by (simp add: rd_0 [OF assms(1)] rd_1 [OF assms(1)] power2_eq_square mult.assoc)
  qed
  with fp r show ?thesis by blast
qed

theorem worleyNoise3D_feature_point_is_one_witness:
  "\<exists>featurePoints resultNoise.
      generateFeaturePoints (\<lambda>n b. True) (\<lambda>n. int (n mod 2)) 4 2 = Inr featurePoints \<and>
      worleyNoise3D float32 (\<lambda>n b. True) (\<lambda>n. int (n mod 2)) 4 2 = Inr resultNoise \<and>
      \<lparr>vx = 0, vy = 1, vz = 0\<rparr> \<in> set featurePoints \<and>
      resultNoise ! 4 = 1"
proof -
  from worleyNoise3D_feature_point_is_one [where alloc = "\<lambda>n b. True"
      and rnd = "\<lambda>n. int (n mod 2)", OF rounding_float32 valid_input_4_2 representable_4]
  obtain featurePoints resultNoise where
    fp: "generateFeaturePoints (\<lambda>n b. True) (\<lambda>n. int (n mod 2)) 4 2 = Inr featurePoints"
    and r: "worleyNoise3D float32 (\<lambda>n b. True) (\<lambda>n. int (n mod 2)) 4 2 = Inr resultNoise"
    and one: "\<forall>x<4. \<forall>y<4. \<forall>z<4.
        \<lparr>vx = int x, vy = int y, vz = int z\<rparr> \<in> set featurePoints
        \<longrightarrow> resultNoise ! (x + y * 4 + z * 4\<^sup>2) = 1"
    by auto
  from fp have "featurePoints = map (cell_point (\<lambda>n. int (n mod 2)) 2 2) [0..<8]"
    by (simp add: featurePoints_4_2_alternating)
  then have m: "\<lparr>vx = 0, vy = 1, vz = 0\<rparr> \<in> set featurePoints"
    by (simp add: upt_8 cell_point_def cell_coordinate_small)
  with one [rule_format, of 0 1 0] have "resultNoise ! 4 = 1" by simp
  with fp r m show ?thesis by blast
qed

lemma ray_component:
  assumes "rounding rd"
    and "int x = px + int t * dx" "int x' = px + int t' * dx" "t \<le> t'"
    and "x < 2 ^ 22" "x' < 2 ^ 22"
  shows "\<bar>real x - rd (real_of_int px)\<bar> \<le> \<bar>real x' - rd (real_of_int px)\<bar>"
proof -
  have X: "real x = real_of_int px + real t * real_of_int dx"
  proof -
    have "real x = real_of_int (int x)" by simp
    also have "\<dots> = real_of_int px + real t * real_of_int dx" unfolding assms(2) by simp
    finally show ?thesis .
  qed
  have X': "real x' = real_of_int px + real t' * real_of_int dx"
  proof -
    have "real x' = real_of_int (int x')" by simp
    also have "\<dots> = real_of_int px + real t' * real_of_int dx" unfolding assms(3) by simp
    finally show ?thesis .
  qed
  have step: "int x' - int x = (int t' - int t) * dx"
    unfolding assms(2,3) by (simp add: algebra_simps)
  from assms(5,6) have b: "int x < 2 ^ 22" "int x' < 2 ^ 22" by simp_all
  have pi: "(2 :: int) ^ 22 < 2 ^ 24" "(0 :: int) < 2 ^ 24"
    and pr: "(2 :: real) ^ 22 < 2 ^ 24" "(0 :: real) < 2 ^ 24" by simp_all
  consider "\<bar>px\<bar> \<le> 2 ^ 24" | "2 ^ 24 < px" | "px < - (2 ^ 24)" by linarith
  then show ?thesis
  proof cases
    case 1
    then have e: "rd (real_of_int px) = real_of_int px" by (rule rd_of_int [OF assms(1)])
    have "\<bar>real t * real_of_int dx\<bar> \<le> \<bar>real t' * real_of_int dx\<bar>"
      unfolding abs_mult using assms(4) by (intro mult_right_mono) simp_all
    then show ?thesis unfolding e X X' by simp
  next
    case 2
    then have "real_of_int (2 ^ 24) \<le> real_of_int px" by (simp only: of_int_le_iff)
    from rd_mono [OF assms(1) this] have a: "2 ^ 24 \<le> rd (real_of_int px)"
      using rd_of_int [OF assms(1), of "2 ^ 24"] by simp
    from 2 b(1) assms(2) pi have "int t * dx < 0" by linarith
    then have "dx < 0" by (simp add: mult_less_0_iff)
    with assms(4) have "(int t' - int t) * dx \<le> 0" by (simp add: mult_le_0_iff)
    with step have "int x' \<le> int x" by linarith
    then have le: "real x' \<le> real x" by simp
    have "real x < 2 ^ 22" "real x' < 2 ^ 22" using assms(5,6) by simp_all
    with a le pr show ?thesis by linarith
  next
    case 3
    then have "real_of_int px \<le> real_of_int (- (2 ^ 24))" by (simp only: of_int_le_iff)
    from rd_mono [OF assms(1) this] have a: "rd (real_of_int px) \<le> - (2 ^ 24)"
      using rd_of_int [OF assms(1), of "- (2 ^ 24)"] by simp
    have "0 \<le> int x" by simp
    with 3 assms(2) pi have "0 < int t * dx" by linarith
    then have "0 < dx" by (simp add: zero_less_mult_iff)
    with assms(4) have "0 \<le> (int t' - int t) * dx" by simp
    with step have "int x \<le> int x'" by linarith
    then have le: "real x \<le> real x'" by simp
    have "0 \<le> real x" by simp
    with a le pr show ?thesis by linarith
  qed
qed

text \<open>
  Claim C7. Along a straight ray from a feature point \<open>p\<close>, that is at the voxels
  \<open>p + t * (dx, dy, dz)\<close> for steps \<open>t\<close>, the distance from \<open>p\<close> grows with \<open>t\<close> and the
  output value does not increase with \<open>t\<close>, provided that no other feature point is
  closer than \<open>p\<close> to the two voxels compared. The ray need not stay in the cell of
  \<open>p\<close>. Rounding keeps the order.
\<close>

theorem worleyNoise3D_monotone_along_ray:
  assumes "rounding rd"
    and "valid_input size' gridSize"
    and "generateFeaturePoints alloc rnd size' gridSize = Inr featurePoints"
    and "worleyNoise3D rd alloc rnd size' gridSize = Inr resultNoise"
    and "p \<in> set featurePoints"
    and "int x = vx p + int t * dx" "int y = vy p + int t * dy" "int z = vz p + int t * dz"
    and "int x' = vx p + int t' * dx" "int y' = vy p + int t' * dy" "int z' = vz p + int t' * dz"
    and "x < size'" "y < size'" "z < size'"
    and "x' < size'" "y' < size'" "z' < size'"
    and "\<forall>q\<in>set featurePoints.
           distance rd (toVector3f rd p) \<lparr>vx = real x, vy = real y, vz = real z\<rparr>
             \<le> distance rd (toVector3f rd q) \<lparr>vx = real x, vy = real y, vz = real z\<rparr>"
    and "\<forall>q\<in>set featurePoints.
           distance rd (toVector3f rd p) \<lparr>vx = real x', vy = real y', vz = real z'\<rparr>
             \<le> distance rd (toVector3f rd q) \<lparr>vx = real x', vy = real y', vz = real z'\<rparr>"
    and "t \<le> t'"
  shows "distance rd (toVector3f rd p) \<lparr>vx = real x, vy = real y, vz = real z\<rparr>
           \<le> distance rd (toVector3f rd p) \<lparr>vx = real x', vy = real y', vz = real z'\<rparr>
       \<and> resultNoise ! toLinearIndex size' x' y' z' \<le> resultNoise ! toLinearIndex size' x y z"
proof -
  let ?M = "maxCellDistance rd size' gridSize"
  let ?v = "\<lparr>vx = real x, vy = real y, vz = real z\<rparr>"
  let ?v' = "\<lparr>vx = real x', vy = real y', vz = real z'\<rparr>"
  note m = rd_mono [OF assms(1)]
  from representable_size [OF worleyNoise3D_Inr_D(2) [OF assms(4)]] assms(12-17)
  have b: "x < 2 ^ 22" "y < 2 ^ 22" "z < 2 ^ 22" "x' < 2 ^ 22" "y' < 2 ^ 22" "z' < 2 ^ 22"
    by simp_all
  have e: "\<lparr>vx = rd (real x), vy = rd (real y), vz = rd (real z)\<rparr> = ?v"
    "\<lparr>vx = rd (real x'), vy = rd (real y'), vz = rd (real z')\<rparr> = ?v'"
    by (simp_all add: voxel_exact [OF assms(1) b(1)] voxel_exact [OF assms(1) b(2)]
        voxel_exact [OF assms(1) b(3)] voxel_exact [OF assms(1) b(4)]
        voxel_exact [OF assms(1) b(5)] voxel_exact [OF assms(1) b(6)])
  have val: "resultNoise ! toLinearIndex size' x y z =
      rd (1 - rd (rd (nearest rd featurePoints ?v) / ?M))"
    unfolding worleyNoise3D_result [OF assms(4,3,12-14)] noiseValue_eq [OF assms(1)] e
    by (simp only: maxCellDistance_idem [OF assms(1)])
  have val': "resultNoise ! toLinearIndex size' x' y' z' =
      rd (1 - rd (rd (nearest rd featurePoints ?v') / ?M))"
    unfolding worleyNoise3D_result [OF assms(4,3,15-17)] noiseValue_eq [OF assms(1)] e
    by (simp only: maxCellDistance_idem [OF assms(1)])
  have M: "0 \<le> ?M" by (rule maxCellDistance_nonneg [OF assms(1)])
  have d: "distance rd (toVector3f rd p) ?v \<le> distance rd (toVector3f rd p) ?v'"
    using ray_component [OF assms(1,6,9,20) b(1,4)] ray_component [OF assms(1,7,10,20) b(2,5)]
      ray_component [OF assms(1,8,11,20) b(3,6)]
    by (intro distance_mono [OF assms(1)]) (simp_all add: toVector3f_def)
  then have "nearest rd featurePoints ?v \<le> nearest rd featurePoints ?v'"
    unfolding nearest_of_closest [OF assms(5,18)] nearest_of_closest [OF assms(5,19)]
    by (simp add: min_def)
  then have "rd (nearest rd featurePoints ?v) / ?M \<le> rd (nearest rd featurePoints ?v') / ?M"
    using M by (intro divide_right_mono m)
  then have "rd (1 - rd (rd (nearest rd featurePoints ?v') / ?M))
      \<le> rd (1 - rd (rd (nearest rd featurePoints ?v) / ?M))"
    by (intro m diff_left_mono)
  with d show ?thesis unfolding val val' by simp
qed

theorem worleyNoise3D_monotone_along_ray_witness:
  "\<exists>featurePoints resultNoise.
      generateFeaturePoints (\<lambda>n b. True) (\<lambda>n. 0) 4 2 = Inr featurePoints \<and>
      worleyNoise3D float32 (\<lambda>n b. True) (\<lambda>n. 0) 4 2 = Inr resultNoise \<and>
      \<lparr>vx = 0, vy = 0, vz = 0\<rparr> \<in> set featurePoints \<and>
      \<lparr>vx = 2, vy = 0, vz = 0\<rparr> \<in> set featurePoints \<and>
      resultNoise ! toLinearIndex 4 0 0 1 \<le> resultNoise ! toLinearIndex 4 0 0 0"
proof -
  let ?fp = "map (cell_point (\<lambda>n. 0) 2 2) [0..<8]"
  note fp = featurePoints_4_2_zero
  obtain resultNoise where
    r: "worleyNoise3D float32 (\<lambda>n b. True) (\<lambda>n. 0) 4 2 = Inr resultNoise"
    using worleyNoise3D_returns [where alloc = "\<lambda>n b. True" and rd = float32
        and rnd = "\<lambda>n. 0", OF valid_input_4_2 representable_4] by auto
  have s: "set ?fp = {\<lparr>vx = 0, vy = 0, vz = 0\<rparr>, \<lparr>vx = 0, vy = 0, vz = 2\<rparr>,
      \<lparr>vx = 0, vy = 2, vz = 0\<rparr>, \<lparr>vx = 0, vy = 2, vz = 2\<rparr>,
      \<lparr>vx = 2, vy = 0, vz = 0\<rparr>, \<lparr>vx = 2, vy = 0, vz = 2\<rparr>,
      \<lparr>vx = 2, vy = 2, vz = 0\<rparr>, \<lparr>vx = 2, vy = 2, vz = 2\<rparr>}"
    by (simp add: upt_8 cell_point_def cell_coordinate_small)
  have p: "\<lparr>vx = 0, vy = 0, vz = 0\<rparr> \<in> set ?fp" and q: "\<lparr>vx = 2, vy = 0, vz = 0\<rparr> \<in> set ?fp"
    unfolding s by simp_all
  have n1: "\<forall>q\<in>set ?fp.
      distance float32 (toVector3f float32 \<lparr>vx = 0, vy = 0, vz = 0\<rparr>)
          \<lparr>vx = real 0, vy = real 0, vz = real 0\<rparr>
        \<le> distance float32 (toVector3f float32 q) \<lparr>vx = real 0, vy = real 0, vz = real 0\<rparr>"
    unfolding s
    by (intro ballI distance_mono [OF rounding_float32])
      (auto simp: toVector3f_def float32_0 float32_2)
  have n2: "\<forall>q\<in>set ?fp.
      distance float32 (toVector3f float32 \<lparr>vx = 0, vy = 0, vz = 0\<rparr>)
          \<lparr>vx = real 0, vy = real 0, vz = real 1\<rparr>
        \<le> distance float32 (toVector3f float32 q) \<lparr>vx = real 0, vy = real 0, vz = real 1\<rparr>"
    unfolding s
    by (intro ballI distance_mono [OF rounding_float32])
      (auto simp: toVector3f_def float32_0 float32_2)
  have "distance float32 (toVector3f float32 \<lparr>vx = 0, vy = 0, vz = 0\<rparr>)
            \<lparr>vx = real 0, vy = real 0, vz = real 0\<rparr>
           \<le> distance float32 (toVector3f float32 \<lparr>vx = 0, vy = 0, vz = 0\<rparr>)
            \<lparr>vx = real 0, vy = real 0, vz = real 1\<rparr>
       \<and> resultNoise ! toLinearIndex 4 0 0 1 \<le> resultNoise ! toLinearIndex 4 0 0 0"
    using n1 n2
    by (intro worleyNoise3D_monotone_along_ray
          [OF rounding_float32 valid_input_4_2 fp r p,
            where t = 0 and t' = 1 and dx = 0 and dy = 0 and dz = 1]) simp_all
  then have "resultNoise ! toLinearIndex 4 0 0 1 \<le> resultNoise ! toLinearIndex 4 0 0 0" by simp
  with fp r p q show ?thesis by blast
qed

section \<open>The range of the values\<close>

lemma float32_FLT_MAX: "float32 FLT_MAX = FLT_MAX"
  using float32_exact_pos' [of 16777215 104] by (simp add: FLT_MAX_def)

lemma float32_numeral:
  "numeral k \<le> (2 :: int) ^ 24 \<Longrightarrow> float32 (numeral k) = numeral k"
  using float32_of_int [of "numeral k"] by simp

lemma float32_16793868: "float32 16793868 = 16793868"
  using float32_exact_pos [of 8396934 1] by simp

lemma float32_16793870: "float32 16793870 = 16793870"
  using float32_exact_pos [of 8396935 1] by simp

lemma noiseValue_le_1:
  assumes "rounding rd" "0 \<le> M"
  shows "noiseValue rd featurePoints M x y z \<le> 1"
proof -
  let ?n = "nearest rd featurePoints \<lparr>vx = rd (real x), vy = rd (real y), vz = rd (real z)\<rparr>"
  have "0 \<le> rd ?n" by (intro rd_nonneg [OF assms(1)] nearest_nonneg [OF assms(1)])
  moreover have "0 \<le> rd M" by (rule rd_nonneg [OF assms])
  ultimately have "0 \<le> rd ?n / rd M" by (rule divide_nonneg_nonneg)
  then have "0 \<le> rd (rd ?n / rd M)" by (rule rd_nonneg [OF assms(1)])
  then have "1 - rd (rd ?n / rd M) \<le> 1" by simp
  from rd_mono [OF assms(1) this] show ?thesis
    unfolding noiseValue_eq [OF assms(1)] by (simp add: rd_1 [OF assms(1)])
qed

lemma nearest_float32_idem:
  "float32 (nearest float32 featurePoints v) = nearest float32 featurePoints v"
proof -
  let ?D = "insert FLT_MAX ((\<lambda>p. distance float32 (toVector3f float32 p) v) ` set featurePoints)"
  have "Min ?D \<in> ?D" by (intro Min_in) simp_all
  then show ?thesis
    unfolding nearest_eq_Min
    by (auto simp: float32_FLT_MAX distance_idem [OF rounding_float32])
qed

lemma noiseValue_negative:
  assumes "0 < M" "float32 M = M" "M < FLT_MAX"
    and "\<forall>p\<in>set featurePoints.
       M < distance float32 (toVector3f float32 p)
             \<lparr>vx = float32 (real x), vy = float32 (real y), vz = float32 (real z)\<rparr>"
  shows "noiseValue float32 featurePoints M x y z < 0"
proof -
  let ?v = "\<lparr>vx = float32 (real x), vy = float32 (real y), vz = float32 (real z)\<rparr>"
  have "M < Min (insert FLT_MAX ((\<lambda>p. distance float32 (toVector3f float32 p) ?v)
      ` set featurePoints))"
    using assms(3,4) by simp
  then have "M < nearest float32 featurePoints ?v" by (simp only: nearest_eq_Min)
  from float32_inverted_negative [OF nearest_float32_idem assms(2,1) this]
  show ?thesis
    unfolding noiseValue_eq [OF rounding_float32] by (simp only: nearest_float32_idem assms(2))
qed

lemma points_zero_source:
  assumes "1 \<le> c" "int g * c < 2 ^ 31"
    and "p \<in> set (map (cell_point (\<lambda>n. 0) c g) [0..<g * g * g])"
  shows "0 \<le> vx p \<and> vx p \<le> (int g - 1) * c"
    and "0 \<le> vy p \<and> vy p \<le> (int g - 1) * c"
    and "0 \<le> vz p \<and> vz p \<le> (int g - 1) * c"
proof -
  from assms(3) obtain n where n: "n < g * g * g" and p: "p = cell_point (\<lambda>n. 0) c g n"
    by auto
  from assms(1) have u: "uniform_int_distribution 0 (c - 1) (\<lambda>n. 0)"
    by (intro zero_source) simp
  note i = cell_of_index [OF n]
  have b: "0 \<le> int a * c \<and> int a * c \<le> (int g - 1) * c" if "a < g" for a
  proof -
    from that have "int a \<le> int g - 1" by simp
    then have "int a * c \<le> (int g - 1) * c" using assms(1) by (intro mult_right_mono) simp_all
    moreover have "0 \<le> int a * c" using assms(1) by simp
    ultimately show ?thesis by simp
  qed
  show "0 \<le> vx p \<and> vx p \<le> (int g - 1) * c"
    and "0 \<le> vy p \<and> vy p \<le> (int g - 1) * c"
    and "0 \<le> vz p \<and> vz p \<le> (int g - 1) * c"
    unfolding p cell_point_plain [OF u assms(2) n]
    using b [OF i(1)] b [OF i(2)] b [OF i(3)] by simp_all
qed

text \<open>
  Claim C5 says that every output value is at most 1 and that the value is strictly
  negative at every voxel whose nearest feature point is farther than \<open>maxCellDistance\<close>.
  The second part fails under the rounding of \<open>float\<close>. At \<open>size = 7100\<close>,
  \<open>gridSize = 3\<close>, all draws \<open>0\<close>, the cell edge is \<open>2366\<close> and \<open>maxCellDistance\<close> is
  the rounded \<open>sqrt 16793868\<close>. The voxel \<open>(7099, 7098, 7097)\<close> is at distance
  \<open>sqrt 16793870\<close> or more from every feature point, which is more than
  \<open>maxCellDistance\<close>, but the nearest distance rounds to the same \<open>float\<close>,
  \<open>8392770 / 2048\<close>, and the stored value is \<open>0\<close>.
\<close>

theorem worleyNoise3D_far_voxel_is_negative_counterexample:
  "valid_input 7100 3 \<and> representable 7100 \<and>
   (\<exists>featurePoints resultNoise.
      generateFeaturePoints (\<lambda>n b. True) (\<lambda>n. 0) 7100 3 = Inr featurePoints \<and>
      worleyNoise3D float32 (\<lambda>n b. True) (\<lambda>n. 0) 7100 3 = Inr resultNoise \<and>
      list_all (\<lambda>p. maxCellDistance float32 7100 3
                      < sqrt ((7099 - real_of_int (vx p))\<^sup>2 + (7098 - real_of_int (vy p))\<^sup>2
                              + (7097 - real_of_int (vz p))\<^sup>2)) featurePoints \<and>
      resultNoise ! (7099 + 7098 * 7100 + 7097 * 7100\<^sup>2) = 0)"
proof -
  let ?fp = "map (cell_point (\<lambda>n. 0) 2366 3) [0..<3 * 3 * 3]"
  let ?f = "8392770 / 2048 :: real"
  let ?v = "\<lparr>vx = 7099, vy = 7098, vz = 7097 :: real\<rparr>"
  let ?p = "\<lparr>vx = 4732, vy = 4732, vz = 4732 :: int\<rparr>"
  have v: "valid_input 7100 3" by (simp add: valid_input_def)
  have rep: "representable 7100" by (simp add: representable_def)
  have c: "gen_sizeOfEachCell 7100 3 = 2366"
    by (simp add: gen_sizeOfEachCell_def static_cast_int_def)
  have fp: "generateFeaturePoints (\<lambda>n b. True) (\<lambda>n. 0) 7100 3 = Inr ?fp"
    using generateFeaturePoints_returns [where alloc = "\<lambda>n b. True" and rnd = "\<lambda>n. 0",
        OF v rep] by (simp add: c)
  from worleyNoise3D_values [where alloc = "\<lambda>n b. True" and rd = float32, OF v rep _ fp]
  obtain resultNoise where
    r: "worleyNoise3D float32 (\<lambda>n b. True) (\<lambda>n. 0) 7100 3 = Inr resultNoise"
    and val: "resultNoise ! toLinearIndex 7100 7099 7098 7097 =
      noiseValue float32 ?fp (maxCellDistance float32 7100 3) 7099 7098 7097"
    by auto
  have M: "maxCellDistance float32 7100 3 = ?f"
    by (simp add: maxCellDistance_def worley_sizeOfEachCell_def float32_numeral
        float32_16793868 sqrtf_16793868)
  have bounds: "0 \<le> vx q \<and> vx q \<le> 4732" "0 \<le> vy q \<and> vy q \<le> 4732"
      "0 \<le> vz q \<and> vz q \<le> 4732" if "q \<in> set ?fp" for q
    using points_zero_source [of 2366 3 q] that by simp_all
  have exact: "toVector3f float32 q =
      \<lparr>vx = real_of_int (vx q), vy = real_of_int (vy q), vz = real_of_int (vz q)\<rparr>"
    if "q \<in> set ?fp" for q
    using bounds [OF that] by (intro toVector3f_exact [OF rounding_float32]) simp_all
  have p: "?p \<in> set ?fp"
  proof -
    have "cell_point (\<lambda>n. 0) 2366 3 26 = ?p"
      by (simp add: cell_point_def cell_coordinate_def int_to_size_t_def size_t_def
          static_cast_int_def)
    moreover have "cell_point (\<lambda>n. 0) 2366 3 26 \<in> set ?fp" by simp
    ultimately show ?thesis by simp
  qed
  have dp: "distance float32 (toVector3f float32 ?p) ?v = ?f"
    by (simp add: distance_def toVector3f_def float32_numeral float32_16793870 sqrtf_16793870)
  have closest: "\<forall>q\<in>set ?fp.
      distance float32 (toVector3f float32 ?p) ?v \<le> distance float32 (toVector3f float32 q) ?v"
  proof
    fix q assume q: "q \<in> set ?fp"
    from bounds [OF q] show
      "distance float32 (toVector3f float32 ?p) ?v \<le> distance float32 (toVector3f float32 q) ?v"
      unfolding exact [OF q] exact [OF p]
      by (intro distance_mono [OF rounding_float32]) simp_all
  qed
  have "?f < FLT_MAX" by (simp add: FLT_MAX_def)
  then have n: "nearest float32 ?fp ?v = ?f"
    unfolding nearest_of_closest [OF p closest] dp by simp
  have vox: "\<lparr>vx = float32 (real 7099), vy = float32 (real 7098), vz = float32 (real 7097)\<rparr> = ?v"
    by (simp add: float32_numeral)
  have ff: "float32 ?f = ?f"
    using distance_idem [OF rounding_float32, of "toVector3f float32 ?p" ?v] unfolding dp .
  have "noiseValue float32 ?fp ?f 7099 7098 7097
      = float32 (1 - float32 (float32 ?f / float32 ?f))"
    unfolding noiseValue_eq [OF rounding_float32] vox n ..
  also have "\<dots> = 0" unfolding ff by (simp add: float32_1 float32_0)
  finally have "noiseValue float32 ?fp ?f 7099 7098 7097 = 0" .
  with val have zero: "resultNoise ! (7099 + 7098 * 7100 + 7097 * 7100\<^sup>2) = 0"
    by (simp add: M toLinearIndex_def size_t_def)
  have far: "maxCellDistance float32 7100 3
      < sqrt ((7099 - real_of_int (vx q))\<^sup>2 + (7098 - real_of_int (vy q))\<^sup>2
              + (7097 - real_of_int (vz q))\<^sup>2)" if "q \<in> set ?fp" for q
  proof -
    have sq: "a\<^sup>2 \<le> (b - real_of_int d)\<^sup>2" if "0 \<le> a" "a \<le> b - 4732" "d \<le> 4732"
      for a b :: real and d :: int
    proof -
      from that(3) have "real_of_int d \<le> 4732" by simp
      with that(2) have "a \<le> b - real_of_int d" by linarith
      with that(1) show ?thesis by (intro power_mono)
    qed
    from bounds [OF that] have
      "2367\<^sup>2 \<le> (7099 - real_of_int (vx q))\<^sup>2" "2366\<^sup>2 \<le> (7098 - real_of_int (vy q))\<^sup>2"
      "2365\<^sup>2 \<le> (7097 - real_of_int (vz q))\<^sup>2"
      by (intro sq; simp)+
    then have "16793870 \<le> (7099 - real_of_int (vx q))\<^sup>2 + (7098 - real_of_int (vy q))\<^sup>2
              + (7097 - real_of_int (vz q))\<^sup>2"
      by simp
    moreover have "?f\<^sup>2 < 16793870" by (simp add: power2_eq_square)
    ultimately have "?f\<^sup>2 < (7099 - real_of_int (vx q))\<^sup>2 + (7098 - real_of_int (vy q))\<^sup>2
              + (7097 - real_of_int (vz q))\<^sup>2"
      by linarith
    then show ?thesis unfolding M by (rule real_less_rsqrt)
  qed
  then have "list_all (\<lambda>p. maxCellDistance float32 7100 3
                      < sqrt ((7099 - real_of_int (vx p))\<^sup>2 + (7098 - real_of_int (vy p))\<^sup>2
                              + (7097 - real_of_int (vz p))\<^sup>2)) ?fp"
    unfolding list_all_iff by blast
  with v rep fp r zero show ?thesis by blast
qed

text \<open>
  Claim C5, as amended. For every valid input whose \<open>size * size * size\<close> is below
  \<open>2 ^ 64\<close> and whose allocations are granted, every output value is at most 1, and the
  remap is not clamped: at a voxel whose computed distance to every feature point (so to
  the nearest one), the square root of the sum of the three squared differences with each
  operation rounded to \<open>float\<close>, exceeds the \<open>float\<close> \<open>maxCellDistance\<close>, the stored
  value is strictly negative.
\<close>

theorem worleyNoise3D_unclamped_range:
  assumes "valid_input size' gridSize" and "representable size'"
    and "alloc (size' * size' * size') 4" and "alloc (size' * size' * size') 12"
    and "uniform_int_distribution 0 (gen_sizeOfEachCell size' gridSize - 1) rnd"
  shows "\<exists>featurePoints resultNoise.
     generateFeaturePoints alloc rnd size' gridSize = Inr featurePoints \<and>
     worleyNoise3D float32 alloc rnd size' gridSize = Inr resultNoise \<and>
     length resultNoise = size' ^ 3 \<and>
     (\<forall>v\<in>set resultNoise. v \<le> 1) \<and>
     (\<forall>x<size'. \<forall>y<size'. \<forall>z<size'.
        (\<forall>p\<in>set featurePoints.
           maxCellDistance float32 size' gridSize
             < float32 (sqrt (float32 (float32 (float32 ((real x - real_of_int (vx p))\<^sup>2)
                                                + float32 ((real y - real_of_int (vy p))\<^sup>2))
                                       + float32 ((real z - real_of_int (vz p))\<^sup>2)))))
        \<longrightarrow> resultNoise ! (x + y * size' + z * size'\<^sup>2) < 0)"
proof -
  let ?M = "maxCellDistance float32 size' gridSize"
  note rd = rounding_float32
  from worleyNoise3D_returns [where alloc = alloc and rd = float32 and rnd = rnd, OF assms(1-4)]
  obtain featurePoints resultNoise where
    fp: "generateFeaturePoints alloc rnd size' gridSize = Inr featurePoints"
    and r: "worleyNoise3D float32 alloc rnd size' gridSize = Inr resultNoise"
    and len: "length resultNoise = size' * size' * size'"
    by blast
  note val = worleyNoise3D_result [OF r fp]
  have M1: "1 \<le> ?M" by (rule maxCellDistance_ge_1 [OF rd assms(1)])
  have le1: "v \<le> 1" if "v \<in> set resultNoise" for v
  proof -
    from that obtain n where n: "n < size' * size' * size'" and v: "v = resultNoise ! n"
      unfolding in_set_conv_nth len [symmetric] by blast
    note i = cell_of_index [OF n]
    have "v = noiseValue float32 featurePoints ?M (n mod size') ((n div size') mod size')
        (n div (size' * size'))"
      using val [OF i(3,2,1)] unfolding v by (simp only: toLinearIndex_encode [OF assms(2) n])
    also have "\<dots> \<le> 1" using M1 by (intro noiseValue_le_1 [OF rd]) simp
    finally show ?thesis .
  qed
  have neg: "resultNoise ! (x + y * size' + z * size'\<^sup>2) < 0"
    if "x < size'" "y < size'" "z < size'"
      and far: "\<forall>p\<in>set featurePoints.
        ?M < float32 (sqrt (float32 (float32 (float32 ((real x - real_of_int (vx p))\<^sup>2)
                                           + float32 ((real y - real_of_int (vy p))\<^sup>2))
                                  + float32 ((real z - real_of_int (vz p))\<^sup>2))))"
    for x y z
  proof -
    from that(1-3) no_wrap_around(1) [OF assms(1,2)]
    have b: "x < 2 ^ 22" "y < 2 ^ 22" "z < 2 ^ 22" by simp_all
    have "?M < distance float32 (toVector3f float32 p) \<lparr>vx = real x, vy = real y, vz = real z\<rparr>"
      if "p \<in> set featurePoints" for p
      unfolding distance_explicit [OF rd points_in_volume [OF assms(1,2,4,5) fp that] b]
      using far that by blast
    then have far: "\<forall>p\<in>set featurePoints.
        ?M < distance float32 (toVector3f float32 p) \<lparr>vx = real x, vy = real y, vz = real z\<rparr>"
      by blast
    have e: "\<lparr>vx = float32 (real x), vy = float32 (real y), vz = float32 (real z)\<rparr>
        = \<lparr>vx = real x, vy = real y, vz = real z\<rparr>"
      by (simp add: voxel_exact [OF rd b(1)] voxel_exact [OF rd b(2)] voxel_exact [OF rd b(3)])
    from far have far': "\<forall>p\<in>set featurePoints.
        ?M < distance float32 (toVector3f float32 p)
               \<lparr>vx = float32 (real x), vy = float32 (real y), vz = float32 (real z)\<rparr>"
      by (simp only: e)
    from M1 have "0 < ?M" by simp
    from noiseValue_negative [OF this maxCellDistance_idem [OF rd]
        maxCellDistance_less_FLT_MAX [OF rd assms(2)] far']
    have "noiseValue float32 featurePoints ?M x y z < 0" .
    then show ?thesis
      using val [OF that(1-3)] unfolding toLinearIndex_plain [OF assms(2) that(1-3)]
      by (simp add: power2_eq_square mult.assoc)
  qed
  from fp r len le1 neg show ?thesis
    by (auto simp: power3_eq_cube)
qed

theorem worleyNoise3D_unclamped_range_witness:
  "\<exists>featurePoints resultNoise.
      generateFeaturePoints (\<lambda>n b. True) (\<lambda>n. 0) 5 3 = Inr featurePoints \<and>
      worleyNoise3D float32 (\<lambda>n b. True) (\<lambda>n. 0) 5 3 = Inr resultNoise \<and>
      length resultNoise = 125 \<and>
      resultNoise ! 0 \<le> 1 \<and>
      resultNoise ! 124 < 0"
proof -
  let ?fp = "map (cell_point (\<lambda>n. 0) 1 3) [0..<3 * 3 * 3]"
  let ?v = "\<lparr>vx = 4, vy = 4, vz = 4 :: real\<rparr>"
  let ?p = "\<lparr>vx = 2, vy = 2, vz = 2 :: real\<rparr>"
  have c: "gen_sizeOfEachCell 5 3 = 1"
    by (simp add: gen_sizeOfEachCell_def static_cast_int_def)
  have gen: "generateFeaturePoints (\<lambda>n b. True) (\<lambda>n. 0) 5 3 = Inr ?fp"
    using generateFeaturePoints_returns [where alloc = "\<lambda>n b. True" and rnd = "\<lambda>n. 0",
        OF valid_input_5_3 representable_5] by (simp add: c)
  have u: "uniform_int_distribution 0 (gen_sizeOfEachCell 5 3 - 1) (\<lambda>n. 0)"
    by (simp add: c uniform_int_distribution_def)
  from worleyNoise3D_unclamped_range [where alloc = "\<lambda>n b. True" and rnd = "\<lambda>n. 0",
      OF valid_input_5_3 representable_5 _ _ u]
  obtain featurePoints resultNoise where
    fp: "generateFeaturePoints (\<lambda>n b. True) (\<lambda>n. 0) 5 3 = Inr featurePoints"
    and r: "worleyNoise3D float32 (\<lambda>n b. True) (\<lambda>n. 0) 5 3 = Inr resultNoise"
    and len: "length resultNoise = 5 ^ 3"
    and le1: "\<forall>v\<in>set resultNoise. v \<le> 1"
    and neg: "\<forall>x<5. \<forall>y<5. \<forall>z<5.
        (\<forall>p\<in>set featurePoints.
           maxCellDistance float32 5 3
             < float32 (sqrt (float32 (float32 (float32 ((real x - real_of_int (vx p))\<^sup>2)
                                                + float32 ((real y - real_of_int (vy p))\<^sup>2))
                                       + float32 ((real z - real_of_int (vz p))\<^sup>2)))))
        \<longrightarrow> resultNoise ! (x + y * 5 + z * 5\<^sup>2) < 0"
    by auto
  from fp gen have f: "featurePoints = ?fp" by simp
  have "sqrt 3 \<le> sqrt (2\<^sup>2)" by (intro real_sqrt_le_mono) simp
  then have "sqrt 3 \<le> 2" by simp
  from float32_mono [OF this] have M: "maxCellDistance float32 5 3 \<le> 2"
    by (simp add: maxCellDistance_def worley_sizeOfEachCell_def float32_1 float32_2 float32_3)
  have "sqrt (3\<^sup>2) \<le> sqrt 12" by (intro real_sqrt_le_mono) simp
  then have "3 \<le> sqrt 12" by simp
  from float32_mono [OF this] have d: "3 \<le> distance float32 ?p ?v"
    by (simp add: distance_def float32_numeral)
  have far: "maxCellDistance float32 5 3
      < float32 (sqrt (float32 (float32 (float32 ((real 4 - real_of_int (vx q))\<^sup>2)
                                         + float32 ((real 4 - real_of_int (vy q))\<^sup>2))
                                + float32 ((real 4 - real_of_int (vz q))\<^sup>2))))"
    if "q \<in> set ?fp" for q
  proof -
    from points_zero_source [of 1 3 q] that
    have b: "0 \<le> vx q \<and> vx q \<le> 2" "0 \<le> vy q \<and> vy q \<le> 2" "0 \<le> vz q \<and> vz q \<le> 2"
      by simp_all
    then have e: "toVector3f float32 q =
        \<lparr>vx = real_of_int (vx q), vy = real_of_int (vy q), vz = real_of_int (vz q)\<rparr>"
      by (intro toVector3f_exact [OF rounding_float32]) simp_all
    have "distance float32 ?p ?v \<le> distance float32 (toVector3f float32 q) ?v"
      unfolding e using b by (intro distance_mono [OF rounding_float32]) simp_all
    with M d have "maxCellDistance float32 5 3
        < distance float32 (toVector3f float32 q) \<lparr>vx = real 4, vy = real 4, vz = real 4\<rparr>"
      by simp
    then show ?thesis
      using b by (subst (asm) distance_explicit [OF rounding_float32]) simp_all
  qed
  with neg [rule_format, of 4 4 4] have "resultNoise ! 124 < 0" by (simp add: f)
  moreover from len have "resultNoise ! 0 \<in> set resultNoise" by simp
  with le1 have "resultNoise ! 0 \<le> 1" by blast
  ultimately show ?thesis using fp r len by auto
qed

section \<open>Outside the preconditions\<close>

text \<open>
  Without the precondition on \<open>gridSize\<close> the functions end in one of the errors that
  stand for undefined behaviour.
\<close>

lemma invalid_input_errors:
  "generateFeaturePoints alloc rnd size' 0 = Inl DivisionByZero"
  "0 < gridSize \<Longrightarrow> size' < gridSize \<Longrightarrow>
     generateFeaturePoints alloc rnd size' gridSize = Inl EmptyDistribution"
  "alloc (size_t (size' * size' * size')) 4 \<Longrightarrow>
     worleyNoise3D rd alloc rnd size' 0 = Inl DivisionByZero"
  by (simp_all add: generateFeaturePoints_def worleyNoise3D_def gen_sizeOfEachCell_def
      static_cast_int_def Let_def)

text \<open>
  The hypothesis \<open>representable size\<close> of the theorems above is needed. \<open>worleyNoise3D\<close>
  returns an array only for a valid input with \<open>size * size * size < 2 ^ 64\<close> (lemma
  \<open>worleyNoise3D_Inr_D\<close>): at \<open>size = 2 ^ 22\<close> the product wraps around to \<open>0\<close> and
  the vector is empty. The \<open>int\<close> cell edge of the generator wraps around as well: at
  \<open>size = 2 ^ 32\<close>, \<open>gridSize = 1\<close> it is \<open>0\<close> and the distribution is empty, and at
  \<open>size = 2 ^ 23 * 1025\<close>, \<open>gridSize = 2\<close> it is \<open>2 ^ 22\<close>, not the quotient
  \<open>2 ^ 32 + 2 ^ 22\<close>.
\<close>

lemma wrapped_array_length:
  "valid_input (2 ^ 22) 1" "size_t (2 ^ 22 * 2 ^ 22 * 2 ^ 22) = 0"
  "worleyNoise3D rd alloc rnd (2 ^ 22) 1 \<noteq> Inr resultNoise"
proof -
  show "valid_input (2 ^ 22) 1" by (simp add: valid_input_def)
  show "size_t (2 ^ 22 * 2 ^ 22 * 2 ^ 22) = 0" by (simp add: size_t_def)
  show "worleyNoise3D rd alloc rnd (2 ^ 22) 1 \<noteq> Inr resultNoise"
  proof
    assume "worleyNoise3D rd alloc rnd (2 ^ 22) 1 = Inr resultNoise"
    from worleyNoise3D_Inr_D(2) [OF this] show False by (simp add: representable_def)
  qed
qed

lemma wrapped_cell_edge:
  "valid_input (2 ^ 32) 1" "gen_sizeOfEachCell (2 ^ 32) 1 = 0"
  "generateFeaturePoints alloc rnd (2 ^ 32) 1 = Inl EmptyDistribution"
  "valid_input (2 ^ 23 * 1025) 2" "gen_sizeOfEachCell (2 ^ 23 * 1025) 2 = 2 ^ 22"
  by (simp_all add: valid_input_def generateFeaturePoints_def gen_sizeOfEachCell_def
      static_cast_int_def Let_def)

end
